theory Spec2Isabelle
  imports Main
begin

section \<open>Data model of the flow iterator (iterator.ts)\<close>

text \<open>Ids are the strings of json.ts.\<close>

type_synonym Id = string

text \<open>
  Modelled from the spec: the types \<^verbatim>\<open>Variable\<close> and \<^verbatim>\<open>VariableStore\<close> are
  declared in variables.ts, which is not among the sources. The spec has a variable as a
  primitive scalar (boolean, number or string) and the store as a flat mapping from the
  variable's name to its value; the mapping is kept as an association list, so that two
  stores can be compared and \<^verbatim>\<open>{}\<close> is the empty list.
\<close>

datatype variable = VBool bool | VNum int | VStr string

type_synonym VariableStore = "(string \<times> variable) list"

text \<open>
  A variable store is a JavaScript object: a flow state holds a reference to it, several
  flow states can share one store, and a write through one of them is seen through the
  others. So the contents of the stores live in an explicit memory (\<open>mem\<close> below) and
  a state holds a reference.
\<close>

type_synonym ref = nat

text \<open>A feature of a template is an object of properties; \<open>truthy\<close> is JavaScript's
  conversion of a property value to a condition.\<close>

type_synonym FeatureProps = "(string \<times> variable) list"

fun truthy :: "variable option \<Rightarrow> bool" where
  "truthy None = False"
| "truthy (Some (VBool b)) = b"
| "truthy (Some (VNum n)) = (n \<noteq> 0)"
| "truthy (Some (VStr s)) = (s \<noteq> [])"

text \<open>
  The static part of a \<^verbatim>\<open>BaseFlowNode\<close>: its id, the type names for which
  \<^verbatim>\<open>node.is(t)\<close> holds, its optional template (feature name to feature, in the
  enumeration order of \<^verbatim>\<open>Object.keys\<close>) and the answer of \<^verbatim>\<open>needsShadow()\<close>.
\<close>

record node =
  properties_Id :: Id
  types :: "string list"
  template :: "(string \<times> FeatureProps) list option"
  needsShadow :: bool

definition is_type :: "node \<Rightarrow> string \<Rightarrow> bool" where
  "is_type n t = (t \<in> set (types n))"

text \<open>
  The collaborators the iterator consumes, \<^verbatim>\<open>Database\<close> and the methods of
  \<^verbatim>\<open>BaseFlowNode\<close> (database.ts and flowTypes.ts are not among the sources), are
  parameters of the model. \<^verbatim>\<open>numBranches\<close> and \<^verbatim>\<open>next\<close> receive the variable
  store object and run the scripts of the node on it, so they may write it: each returns
  its result together with the contents it leaves in the store. \<^verbatim>\<open>next\<close> is called
  \<open>next_node\<close> here, since \<open>next\<close> is a keyword of the proof language.
\<close>

record world =
  getObject :: "Id \<Rightarrow> node option"
  numBranches :: "node \<Rightarrow> VariableStore \<Rightarrow> Id option \<Rightarrow> bool \<Rightarrow> int \<times> VariableStore"
  next_node :: "node \<Rightarrow> VariableStore \<Rightarrow> int \<Rightarrow> Id option \<Rightarrow> bool \<Rightarrow> node option \<times> VariableStore"
  execute :: "node \<Rightarrow> VariableStore \<Rightarrow> VariableStore"
  newVariableStore :: VariableStore

record VisitSet =
  counts :: "Id \<Rightarrow> int option"
  indicies :: "Id \<Rightarrow> int option"

text \<open>The fields \<^verbatim>\<open>id\<close> and \<^verbatim>\<open>last\<close> of a flow state are \<open>id_f\<close> and
  \<open>last_f\<close> (\<open>id\<close> and \<open>last\<close> are constants of the library); \<open>None\<close> is null or
  undefined.\<close>

record FlowState =
  id_f :: "Id option"
  last_f :: "Id option"
  variables :: ref
  shadowing :: "bool option"

record FlowBranch =
  index :: int
  path :: "node list"

record AdvancedFlowState = FlowState +
  branches :: "FlowBranch list"
  visits :: VisitSet
  turn :: int

datatype CustomStopType = NormalStop | StopAndContinue | Continue

text \<open>What a custom stop handler hands back: one of the three behaviours, nothing
  (\<^verbatim>\<open>undefined\<close>), or some other value.\<close>

datatype stop_result = Behaviour CustomStopType | Void | Other string

record AdvancedIterationConfig =
  stopAtTypes :: "string list"
  customStopHandler :: "(node \<Rightarrow> VisitSet \<Rightarrow> stop_result) option"

text \<open>
  The memory: the contents of every variable store object, the next unused reference, the
  number of calls of \<^verbatim>\<open>cloneVariableStore\<close> so far, and the console.
\<close>

record mem =
  stores :: "ref \<Rightarrow> VariableStore"
  fresh :: ref
  clones :: nat
  console :: "string list"

definition newObject :: "VariableStore \<Rightarrow> mem \<Rightarrow> ref \<times> mem" where
  "newObject vs m = (fresh m, m\<lparr>stores := (stores m)(fresh m := vs), fresh := Suc (fresh m)\<rparr>)"

definition cloneVariableStore :: "ref \<Rightarrow> mem \<Rightarrow> ref \<times> mem" where
  "cloneVariableStore vars m =
     (fresh m, m\<lparr>stores := (stores m)(fresh m := stores m vars),
                 fresh := Suc (fresh m), clones := Suc (clones m)\<rparr>)"

text \<open>\<^verbatim>\<open>!state.id\<close>: the id is null, undefined or the empty string.\<close>

definition no_id :: "Id option \<Rightarrow> bool" where
  "no_id i = (case i of None \<Rightarrow> True | Some s \<Rightarrow> s = [])"

text \<open>\<^verbatim>\<open>state.shadowing ?? false\<close>\<close>

definition shadow_flag :: "bool option \<Rightarrow> bool" where
  "shadow_flag b = (case b of None \<Rightarrow> False | Some v \<Rightarrow> v)"

subsection \<open>basicNextFlowState\<close>

definition resetState :: "FlowState \<Rightarrow> mem \<Rightarrow> (FlowState \<times> node option) \<times> mem" where
  "resetState state m =
     (case newObject [] m of (r, m') \<Rightarrow>
        ((\<lparr>id_f = None, last_f = None, variables = r, shadowing = shadowing state\<rparr>, None), m'))"

definition basicNextFlowState ::
  "world \<Rightarrow> FlowState \<Rightarrow> int \<Rightarrow> mem \<Rightarrow> (FlowState \<times> node option) \<times> mem" where
  "basicNextFlowState db state branchIndex m =
     (if no_id (id_f state) then ((state, None), m)
      else case getObject db (the (id_f state)) of
          None \<Rightarrow> resetState state m
        | Some nd \<Rightarrow>
            (case next_node db nd (stores m (variables state)) branchIndex (last_f state)
                    (shadow_flag (shadowing state)) of
               (nxt, vs) \<Rightarrow>
                 let m1 = m\<lparr>stores := (stores m)(variables state := vs)\<rparr> in
                 (case nxt of
                    None \<Rightarrow> resetState state m1
                  | Some n \<Rightarrow>
                      ((\<lparr>id_f = Some (properties_Id n), last_f = id_f state,
                         variables = variables state, shadowing = shadowing state\<rparr>, Some n),
                       m1))))"

subsection \<open>collectBranches\<close>

definition shouldStopAt :: "node \<Rightarrow> string list \<Rightarrow> bool" where
  "shouldStopAt nd stops = (if length (filter (\<lambda>t. is_type nd t) stops) > 0 then True else False)"

text \<open>
  The visit limitation of the reached node: \<^verbatim>\<open>node.template?.Visit_Limitation\<close>, its
  \<^verbatim>\<open>Only_Once\<close> flag, and the count of the node in the visit set handed to
  \<^verbatim>\<open>collectBranches\<close>.
\<close>

definition limit_feature :: "node \<Rightarrow> FeatureProps option" where
  "limit_feature nd = (case template nd of None \<Rightarrow> None | Some t \<Rightarrow> map_of t ''Visit_Limitation'')"

definition visitCount :: "VisitSet \<Rightarrow> node \<Rightarrow> int" where
  "visitCount vis nd = (case counts vis (properties_Id nd) of None \<Rightarrow> 0 | Some c \<Rightarrow> c)"

definition visitLimited :: "node \<Rightarrow> VisitSet \<Rightarrow> bool" where
  "visitLimited nd vis =
     (case limit_feature nd of
        None \<Rightarrow> False
      | Some f \<Rightarrow> truthy (map_of f ''Only_Once'') \<and> visitCount vis nd > 0)"

text \<open>\<^verbatim>\<open>node.numBranches(iter.variables, iter.last, iter.shadowing ?? false)\<close>\<close>

definition callNumBranches :: "world \<Rightarrow> node \<Rightarrow> FlowState \<Rightarrow> mem \<Rightarrow> int \<times> mem" where
  "callNumBranches db nd iter m =
     (case numBranches db nd (stores m (variables iter)) (last_f iter)
              (shadow_flag (shadowing iter)) of
        (n, vs) \<Rightarrow> (n, m\<lparr>stores := (stores m)(variables iter := vs)\<rparr>))"

text \<open>The check for shadowing at the head of the loop: the iterator object gets a cloned
  store when the node asks for one.\<close>

definition shadowStep :: "node \<Rightarrow> FlowState \<Rightarrow> mem \<Rightarrow> FlowState \<times> mem" where
  "shadowStep nd iter m =
     (if needsShadow nd
      then (case cloneVariableStore (variables iter) m of (r, m') \<Rightarrow> (iter\<lparr>variables := r\<rparr>, m'))
      else (iter, m))"

text \<open>
  What the stop check of the loop body decides for the reached node, one constructor for
  each way the source goes on: return the branch, return it after the console message,
  return it and collect past the node (\<^verbatim>\<open>STOP_AND_CONTINUE\<close>), or keep walking.
\<close>

datatype stop_action = ReturnBranch | ReturnLogged string | ForkPast | KeepWalking

definition stopCheck :: "AdvancedIterationConfig \<Rightarrow> node \<Rightarrow> VisitSet \<Rightarrow> stop_action" where
  "stopCheck cfg nd vis =
     (if shouldStopAt nd (stopAtTypes cfg) then
        (case customStopHandler cfg of
           Some h \<Rightarrow>
             (case h nd vis of
                Behaviour NormalStop \<Rightarrow> ReturnBranch
              | Void \<Rightarrow> ReturnBranch
              | Behaviour StopAndContinue \<Rightarrow> ForkPast
              | Behaviour Continue \<Rightarrow> KeepWalking
              | Other s \<Rightarrow> ReturnLogged s)
         | None \<Rightarrow> ReturnBranch)
      else KeepWalking)"

definition unexpectedMessage :: "string \<Rightarrow> string" where
  "unexpectedMessage s =
     ''Unexpected custom stop behaviour found: '' @ s @ ''. Unsure what to do.... Stopping here.''"

text \<open>
  \<^verbatim>\<open>collectBranches\<close> need not return (a cycle without a stop node), so it runs on
  fuel: \<open>None\<close> means that the fuel did not suffice. \<open>walk\<close> is the while loop and
  \<open>forkLoop\<close> the for loop over the branches of a fork. The iterator object is shared
  with the caller and the loop assigns its \<^verbatim>\<open>variables\<close> field before it rebinds
  \<^verbatim>\<open>iter\<close>, so each function also returns the object it was given as it is left.
\<close>

function collectBranches ::
    "nat \<Rightarrow> world \<Rightarrow> FlowState \<Rightarrow> AdvancedIterationConfig \<Rightarrow> VisitSet \<Rightarrow> FlowBranch option
      \<Rightarrow> int \<Rightarrow> int \<Rightarrow> node option \<Rightarrow> mem \<Rightarrow> ((FlowBranch list \<times> FlowState) \<times> mem) option"
  and walk ::
    "nat \<Rightarrow> world \<Rightarrow> FlowState \<Rightarrow> AdvancedIterationConfig \<Rightarrow> VisitSet \<Rightarrow> FlowBranch
      \<Rightarrow> int \<Rightarrow> int \<Rightarrow> node \<Rightarrow> int \<Rightarrow> mem \<Rightarrow> ((FlowBranch list \<times> FlowState) \<times> mem) option"
  and forkLoop ::
    "nat \<Rightarrow> world \<Rightarrow> FlowState \<Rightarrow> AdvancedIterationConfig \<Rightarrow> VisitSet \<Rightarrow> FlowBranch
      \<Rightarrow> int \<Rightarrow> node \<Rightarrow> int \<Rightarrow> int \<Rightarrow> FlowBranch list \<Rightarrow> mem
      \<Rightarrow> ((FlowBranch list \<times> FlowState) \<times> mem) option"
where
  "collectBranches 0 db iter cfg vis branch idx direction ndo m = None"
| "collectBranches (Suc k) db iter cfg vis branch idx direction ndo m =
     (if no_id (id_f iter) then Some (([], iter), m)
      else
        case (case ndo of Some nd \<Rightarrow> Some nd | None \<Rightarrow> getObject db (the (id_f iter))) of
          None \<Rightarrow> Some (([], iter), m)
        | Some nd \<Rightarrow>
            (let br = (case branch of Some b \<Rightarrow> b | None \<Rightarrow> \<lparr>index = idx, path = []\<rparr>) in
             case callNumBranches db nd iter m of
               (n, m1) \<Rightarrow> walk k db iter cfg vis br idx direction nd n m1))"
| "walk 0 db iter cfg vis br idx direction nd n m = None"
| "walk (Suc k) db iter cfg vis br idx direction nd n m =
     (if n = 1 \<or> direction \<ge> 0 then
        (case shadowStep nd iter m of
           (iter1, m1) \<Rightarrow>
             (case basicNextFlowState db iter1 direction m1 of
                ((iter2, nxt), m2) \<Rightarrow>
                  (case nxt of
                     None \<Rightarrow> Some (([], iter1), m2)
                   | Some nd2 \<Rightarrow>
                       if visitLimited nd2 vis then Some (([], iter1), m2)
                       else
                         let br2 = br\<lparr>path := path br @ [nd2]\<rparr> in
                         (case stopCheck cfg nd2 vis of
                            ReturnBranch \<Rightarrow> Some (([br2], iter1), m2)
                          | ReturnLogged s \<Rightarrow>
                              Some (([br2], iter1),
                                    m2\<lparr>console := console m2 @ [unexpectedMessage s]\<rparr>)
                          | ForkPast \<Rightarrow>
                              (case collectBranches k db iter2 cfg vis
                                      (Some \<lparr>index = idx + 1, path = path br2\<rparr>)
                                      (idx + 1) 0 (Some nd2) m2 of
                                 None \<Rightarrow> None
                               | Some ((bs, it), m3) \<Rightarrow> Some ((br2 # bs, iter1), m3))
                          | KeepWalking \<Rightarrow>
                              (case callNumBranches db nd2 iter2 m2 of
                                 (n2, m3) \<Rightarrow>
                                   (case walk k db iter2 cfg vis br2 idx (- 1) nd2 n2 m3 of
                                      None \<Rightarrow> None
                                    | Some ((bs, it), m4) \<Rightarrow> Some ((bs, iter1), m4)))))))
      else forkLoop k db iter cfg vis br idx nd n 0 [] m)"
| "forkLoop 0 db iter cfg vis br idx nd n i result m = None"
| "forkLoop (Suc k) db iter cfg vis br idx nd n i result m =
     (if i < n then
        (case collectBranches k db iter cfg vis (Some \<lparr>index = idx, path = path br\<rparr>)
                idx i (Some nd) m of
           None \<Rightarrow> None
         | Some ((bs, iter'), m1) \<Rightarrow>
             let result' = result @ bs;
                 idx' = (if length result' > 0 then index (last result') + 1 else idx)
             in forkLoop k db iter' cfg vis br idx' nd n (i + 1) result' m1)
      else Some ((result, iter), m))"
  by pat_completeness auto
termination
  by (relation "measure (\<lambda>x. case x of Inl a \<Rightarrow> fst a
                                    | Inr (Inl b) \<Rightarrow> fst b
                                    | Inr (Inr c) \<Rightarrow> fst c)") auto

subsection \<open>refreshBranches\<close>

text \<open>The iterator handed to \<^verbatim>\<open>collectBranches\<close> is a new object
  \<^verbatim>\<open>{ ...state, shadowing: true }\<close>; the other arguments take their defaults.\<close>

definition refreshBranches ::
  "nat \<Rightarrow> world \<Rightarrow> AdvancedFlowState \<Rightarrow> AdvancedIterationConfig \<Rightarrow> mem
    \<Rightarrow> (AdvancedFlowState \<times> mem) option" where
  "refreshBranches fuel db state cfg m =
     (let vars = variables state in
      case collectBranches fuel db
             \<lparr>id_f = id_f state, last_f = last_f state, variables = variables state,
              shadowing = Some True\<rparr>
             cfg (visits state) None 0 (- 1) None m of
        None \<Rightarrow> None
      | Some ((bs, it), m') \<Rightarrow> Some (state\<lparr>branches := bs, variables := vars\<rparr>, m'))"

section \<open>The script module (script.ts)\<close>

text \<open>
  A redux action is opaque here. A script generator is the sequence of actions it yields and
  the value it returns at the end; \<open>Finished\<close> is a generator that has returned. A
  generator is an object: \<open>gen_next\<close> gives the result of \<^verbatim>\<open>generator.next()\<close> and
  the generator as the call leaves it.
\<close>

type_synonym AnyAction = string

datatype ScriptGenerator = Yield AnyAction ScriptGenerator | Return "variable option" | Finished

datatype IteratorResult = IterYield AnyAction | IterReturn "variable option"

fun gen_next :: "ScriptGenerator \<Rightarrow> IteratorResult \<times> ScriptGenerator" where
  "gen_next (Yield a g) = (IterYield a, g)"
| "gen_next (Return v) = (IterReturn v, Finished)"
| "gen_next Finished = (IterReturn None, Finished)"

text \<open>What a native function or a feature handler returns: a value (or nothing), or a
  generator, the case \<^verbatim>\<open>typeof returnValue === 'object'\<close>.\<close>

datatype script_value = Plain "variable option" | Generated ScriptGenerator

type_synonym FeatureExecutionHandler =
  "world \<Rightarrow> FeatureProps \<Rightarrow> node \<Rightarrow> AdvancedFlowState \<Rightarrow> script_value"

text \<open>
  The module-level variables: \<^verbatim>\<open>state\<close>, \<^verbatim>\<open>actionQueue\<close> (a reference to an array
  or undefined; the arrays live in \<open>arrays\<close>) and \<^verbatim>\<open>featureHandlers\<close>. \<open>invoked\<close>
  is bookkeeping of the model: the feature key of every handler call, in order.
\<close>

record 's script_state =
  state_ctx :: "'s option"
  actionQueue :: "ref option"
  arrays :: "ref \<Rightarrow> AnyAction list"
  freshArray :: ref
  featureHandlers :: "string \<Rightarrow> FeatureExecutionHandler list option"
  invoked :: "string list"

definition newArray :: "'s script_state \<Rightarrow> ref \<times> 's script_state" where
  "newArray s =
     (freshArray s, s\<lparr>arrays := (arrays s)(freshArray s := []), freshArray := Suc (freshArray s)\<rparr>)"

definition push :: "ref \<Rightarrow> AnyAction \<Rightarrow> 's script_state \<Rightarrow> 's script_state" where
  "push q a s = s\<lparr>arrays := (arrays s)(q := arrays s q @ [a])\<rparr>"

subsection \<open>queueGeneratedActions\<close>

text \<open>The while loop on \<^verbatim>\<open>result\<close>; it ends since a generator here is a finite
  sequence.\<close>

function drain ::
  "IteratorResult \<Rightarrow> ScriptGenerator \<Rightarrow> bool \<Rightarrow> 's script_state
    \<Rightarrow> (variable option \<times> ScriptGenerator) \<times> 's script_state" where
  "drain result generator shadow s =
     (case result of
        IterYield a \<Rightarrow>
          (let s1 = (if \<not> shadow \<and> actionQueue s \<noteq> None then push (the (actionQueue s)) a s
                     else s)
           in case gen_next generator of (result', generator') \<Rightarrow> drain result' generator' shadow s1)
      | IterReturn v \<Rightarrow> ((v, generator), s))"
  by pat_completeness auto
termination
  by (relation "measure (\<lambda>(r, g, sh, s). case r of IterYield a \<Rightarrow> Suc (size g) | IterReturn v \<Rightarrow> 0)")
     (auto split: IteratorResult.splits, case_tac generator, auto)

declare drain.simps [simp del]

definition queueGeneratedActions ::
  "ScriptGenerator \<Rightarrow> bool \<Rightarrow> 's script_state
    \<Rightarrow> (variable option \<times> ScriptGenerator) \<times> 's script_state" where
  "queueGeneratedActions generator shadow s =
     (case gen_next generator of (result, generator') \<Rightarrow> drain result generator' shadow s)"

subsection \<open>wrapScriptFunction\<close>

type_synonym 's ScriptFunction = "'s option \<Rightarrow> world \<Rightarrow> variable list \<Rightarrow> script_value"

definition wrapScriptFunction ::
  "'s ScriptFunction \<Rightarrow> 's option \<Rightarrow> world \<Rightarrow> bool \<Rightarrow> variable list \<Rightarrow> 's script_state
    \<Rightarrow> variable option \<times> 's script_state" where
  "wrapScriptFunction func st db shadow args s =
     (case func st db args of
        Generated g \<Rightarrow> (case queueGeneratedActions g shadow s of ((v, g'), s') \<Rightarrow> (v, s'))
      | Plain v \<Rightarrow> (v, s))"

subsection \<open>createScriptDispatchMiddleware\<close>

text \<open>The store's \<^verbatim>\<open>getState\<close> and \<^verbatim>\<open>dispatch\<close> and the \<^verbatim>\<open>next\<close> of the
  middleware chain are parameters; \<^verbatim>\<open>next\<close> runs the reducers, which may run scripts.\<close>

definition createScriptDispatchMiddleware ::
  "(AnyAction \<Rightarrow> AnyAction) option \<Rightarrow> 's \<Rightarrow> (AnyAction \<Rightarrow> 's script_state \<Rightarrow> 's script_state)
    \<Rightarrow> (AnyAction \<Rightarrow> 's script_state \<Rightarrow> 'r \<times> 's script_state) \<Rightarrow> AnyAction \<Rightarrow> 's script_state
    \<Rightarrow> 'r \<times> 's script_state" where
  "createScriptDispatchMiddleware finalizeAction getState dispatch nxt action s =
     (case newArray s of
        (queue, s0) \<Rightarrow>
          let s1 = s0\<lparr>actionQueue := Some queue\<rparr>;
              s2 = s1\<lparr>state_ctx := Some getState\<rparr>
          in case nxt action s2 of
               (result, s3) \<Rightarrow>
                 let s4 = s3\<lparr>actionQueue := None\<rparr>;
                     s5 = s4\<lparr>state_ctx := None\<rparr>;
                     s6 = fold dispatch (arrays s5 queue) s5;
                     s7 = (if length (arrays s6 queue) > 0 \<and> finalizeAction \<noteq> None
                           then dispatch ((the finalizeAction) action) s6 else s6)
                 in (result, s7))"

subsection \<open>Feature handlers\<close>

definition RegisterFeatureExecutionHandler ::
  "string \<Rightarrow> FeatureExecutionHandler \<Rightarrow> 's script_state \<Rightarrow> 's script_state" where
  "RegisterFeatureExecutionHandler name handler s =
     (case featureHandlers s name of
        None \<Rightarrow> s\<lparr>featureHandlers := (featureHandlers s)(name \<mapsto> [handler])\<rparr>
      | Some hs \<Rightarrow> s\<lparr>featureHandlers := (featureHandlers s)(name \<mapsto> hs @ [handler])\<rparr>)"

definition ClearRegisteredFeatureHandlers :: "'s script_state \<Rightarrow> 's script_state" where
  "ClearRegisteredFeatureHandlers s = s\<lparr>featureHandlers := Map.empty\<rparr>"

text \<open>The inner loop of \<^verbatim>\<open>OnNodeExecution\<close> over the handlers of one feature, and the
  outer loop over the features of the template, which returns at a feature without
  handlers.\<close>

fun runHandlers ::
  "FeatureExecutionHandler list \<Rightarrow> string \<Rightarrow> world \<Rightarrow> FeatureProps \<Rightarrow> node \<Rightarrow> AdvancedFlowState
    \<Rightarrow> 's script_state \<Rightarrow> 's script_state" where
  "runHandlers [] key db feature nd state s = s"
| "runHandlers (handler # rest) key db feature nd state s =
     (let s1 = s\<lparr>invoked := invoked s @ [key]\<rparr>;
          s2 = (case handler db feature nd state of
                  Generated g \<Rightarrow> snd (queueGeneratedActions g False s1)
                | Plain v \<Rightarrow> s1)
      in runHandlers rest key db feature nd state s2)"

fun runFeatures ::
  "(string \<times> FeatureProps) list \<Rightarrow> world \<Rightarrow> node \<Rightarrow> AdvancedFlowState
    \<Rightarrow> 's script_state \<Rightarrow> 's script_state" where
  "runFeatures [] db nd state s = s"
| "runFeatures ((key, feature) # rest) db nd state s =
     (case featureHandlers s key of
        None \<Rightarrow> s
      | Some handlers \<Rightarrow>
          runFeatures rest db nd state (runHandlers handlers key db feature nd state s))"

definition OnNodeExecution ::
  "world \<Rightarrow> node \<Rightarrow> AdvancedFlowState \<Rightarrow> 's script_state \<Rightarrow> 's script_state" where
  "OnNodeExecution db nd state s =
     (case template nd of None \<Rightarrow> s | Some t \<Rightarrow> runFeatures t db nd state s)"

section \<open>Advanced iteration (iterator.ts)\<close>

datatype error = TypeError

text \<open>
  The turn counter is a JavaScript number, an IEEE double; the model holds the
  integer-valued ones. \<open>plusOne t\<close> is the double \<^verbatim>\<open>t + 1\<close>: the exact sum from
  \<open>- 2\<^sup>5\<^sup>3\<close> up to \<open>2\<^sup>5\<^sup>3 - 1\<close>; where the doubles are the even integers (below
  \<open>2\<^sup>5\<^sup>4\<close> in size) the sum lies halfway between \<open>t\<close> and \<open>t + 2\<close> and is rounded
  to the one whose significand is even; and further out, where the doubles are four or more
  apart, it is rounded back to \<open>t\<close>.
\<close>

definition plusOne :: "int \<Rightarrow> int" where
  "plusOne t =
     (if - (2 ^ 53) \<le> t \<and> t < 2 ^ 53 then t + 1
      else if - (2 ^ 54) < t \<and> t < 2 ^ 54 then (if t mod 4 = 0 then t else t + 2)
      else t)"

text \<open>The loop of \<^verbatim>\<open>advancedNextFlowState\<close> over the steps of the chosen branch.\<close>

fun executePath ::
  "world \<Rightarrow> AdvancedFlowState \<Rightarrow> node list \<Rightarrow> ref \<Rightarrow> bool \<Rightarrow> VisitSet \<Rightarrow> mem \<Rightarrow> 's script_state
    \<Rightarrow> (ref \<times> bool \<times> VisitSet) \<times> mem \<times> 's script_state" where
  "executePath db state [] vars hasCloned vis m s = ((vars, hasCloned, vis), m, s)"
| "executePath db state (step # rest) vars hasCloned vis m s =
     (case (if \<not> hasCloned \<and> needsShadow step
            then (case cloneVariableStore vars m of (r, m') \<Rightarrow> (True, r, m'))
            else (hasCloned, vars, m)) of
        (hasCloned1, vars1, m1) \<Rightarrow>
          let m2 = m1\<lparr>stores := (stores m1)(vars1 := execute db step (stores m1 vars1))\<rparr>;
              s1 = OnNodeExecution db step state s;
              count = (case counts vis (properties_Id step) of None \<Rightarrow> 0 | Some c \<Rightarrow> c) + 1;
              vis1 = vis\<lparr>counts := (counts vis)(properties_Id step \<mapsto> count)\<rparr>;
              vis2 = vis1\<lparr>indicies := (indicies vis1)(properties_Id step \<mapsto> turn state)\<rparr>
          in executePath db state rest vars1 hasCloned1 vis2 m2 s1)"

text \<open>
  \<^verbatim>\<open>advancedNextFlowState\<close>. A branch with an empty path has no last element, and
  reading \<^verbatim>\<open>curr.properties\<close> throws; the refresh at the end runs on the fuel.
\<close>

definition advancedNextFlowState ::
  "nat \<Rightarrow> world \<Rightarrow> AdvancedFlowState \<Rightarrow> AdvancedIterationConfig \<Rightarrow> int \<Rightarrow> mem \<Rightarrow> 's script_state
    \<Rightarrow> (error + ((AdvancedFlowState \<times> node option) \<times> mem \<times> 's script_state)) option" where
  "advancedNextFlowState fuel db state cfg branchIndex m s =
     (if branchIndex < 0 \<or> branchIndex \<ge> int (length (branches state))
      then Some (Inr ((state, None), m, s))
      else if no_id (id_f state) then Some (Inr ((state, None), m, s))
      else
        case find (\<lambda>x. index x = branchIndex) (branches state) of
          None \<Rightarrow> Some (Inr ((state, None), m, s))
        | Some branch \<Rightarrow>
            (case executePath db state (path branch) (variables state) False
                    \<lparr>counts = counts (visits state), indicies = indicies (visits state)\<rparr> m s of
               ((vars, hasCloned, vis), m1, s1) \<Rightarrow>
                 if path branch = [] then Some (Inl TypeError)
                 else
                   let lst = (if length (path branch) > 1
                              then Some (path branch ! (length (path branch) - 2))
                              else getObject db (the (id_f state)));
                       curr = last (path branch);
                       newFlowState =
                         \<lparr>id_f = Some (properties_Id curr),
                          last_f = map_option properties_Id lst,
                          variables = vars, shadowing = None,
                          branches = [], visits = vis, turn = plusOne (turn state)\<rparr>
                   in case refreshBranches fuel db newFlowState cfg m1 of
                        None \<Rightarrow> None
                      | Some (st, m2) \<Rightarrow> Some (Inr ((st, Some curr), m2, s1))))"

subsection \<open>advancedStartupFlowState\<close>




section \<open>Notions used to state the properties\<close>

subsection \<open>Generators\<close>

text \<open>The value a generator returns at its end and the actions it yields before.\<close>

fun gen_return :: "ScriptGenerator \<Rightarrow> variable option" where
  "gen_return (Yield a g) = gen_return g"
| "gen_return (Return v) = v"
| "gen_return Finished = None"

fun gen_actions :: "ScriptGenerator \<Rightarrow> AnyAction list" where
  "gen_actions (Yield a g) = a # gen_actions g"
| "gen_actions (Return v) = []"
| "gen_actions Finished = []"

subsection \<open>Runs of the advanced iterator\<close>



subsection \<open>Assumptions on the nodes of a database\<close>

text \<open>
  The database resolves the id of every node that \<^verbatim>\<open>next\<close> returns to that node;
  \<^verbatim>\<open>numBranches\<close> only reads the variable store; and \<^verbatim>\<open>next\<close> writes the
  store only for a node with \<^verbatim>\<open>needsShadow() = true\<close>.
\<close>

text \<open>The assumption of the claim on isolation, taken by its letter: a node of the
  database that does not report \<^verbatim>\<open>needsShadow\<close> writes the variables in none of its
  operations.\<close>

definition mutators_report_shadow :: "world \<Rightarrow> bool" where
  "mutators_report_shadow db =
     (\<forall>i nd vs b l sh. getObject db i = Some nd \<longrightarrow> \<not> needsShadow nd \<longrightarrow>
        snd (numBranches db nd vs l sh) = vs \<and> snd (next_node db nd vs b l sh) = vs \<and>
        execute db nd vs = vs)"

definition consistent_db :: "world \<Rightarrow> bool" where
  "consistent_db db =
     (\<forall>i nd vs b l sh n'. getObject db i = Some nd \<longrightarrow>
        fst (next_node db nd vs b l sh) = Some n' \<longrightarrow> getObject db (properties_Id n') = Some n')"

definition numBranches_reads :: "world \<Rightarrow> bool" where
  "numBranches_reads db =
     (\<forall>i nd vs l sh. getObject db i = Some nd \<longrightarrow> snd (numBranches db nd vs l sh) = vs)"

definition writes_need_shadow :: "world \<Rightarrow> bool" where
  "writes_need_shadow db =
     (\<forall>i nd vs b l sh. getObject db i = Some nd \<longrightarrow> \<not> needsShadow nd \<longrightarrow>
        snd (next_node db nd vs b l sh) = vs)"

text \<open>\<open>frame m m'\<close>: every store that exists in \<open>m\<close> has the same contents in
  \<open>m'\<close>. \<open>keeps\<close> is what a collection started in \<open>m\<close> on the iterator \<open>iter\<close>
  guarantees when it returns, and the three predicates after it state this for
  \<open>collectBranches\<close>, \<open>walk\<close> and \<open>forkLoop\<close> on fuel \<open>k\<close>.\<close>

definition frame :: "mem \<Rightarrow> mem \<Rightarrow> bool" where
  "frame m m' = (fresh m \<le> fresh m' \<and> (\<forall>r < fresh m. stores m' r = stores m r))"

definition keeps :: "mem \<Rightarrow> FlowState \<Rightarrow> ((FlowBranch list \<times> FlowState) \<times> mem) option \<Rightarrow> bool" where
  "keeps m iter res =
     (case res of
        None \<Rightarrow> True
      | Some ((bs, it), m') \<Rightarrow> frame m m' \<and> variables it < fresh m' \<and> id_f it = id_f iter)"

definition collect_keeps :: "world \<Rightarrow> nat \<Rightarrow> bool" where
  "collect_keeps db k =
     (\<forall>iter cfg vis branch idx dir ndo m.
        (\<forall>nd. ndo = Some nd \<longrightarrow> getObject db (the (id_f iter)) = Some nd) \<longrightarrow>
        variables iter < fresh m \<longrightarrow>
        keeps m iter (collectBranches k db iter cfg vis branch idx dir ndo m))"

definition walk_keeps :: "world \<Rightarrow> nat \<Rightarrow> bool" where
  "walk_keeps db k =
     (\<forall>iter cfg vis br idx dir nd n m.
        getObject db (the (id_f iter)) = Some nd \<longrightarrow>
        variables iter < fresh m \<longrightarrow>
        keeps m iter (walk k db iter cfg vis br idx dir nd n m))"

definition fork_keeps :: "world \<Rightarrow> nat \<Rightarrow> bool" where
  "fork_keeps db k =
     (\<forall>iter cfg vis br idx nd n i result m.
        getObject db (the (id_f iter)) = Some nd \<longrightarrow>
        variables iter < fresh m \<longrightarrow>
        keeps m iter (forkLoop k db iter cfg vis br idx nd n i result m))"

subsection \<open>Fuel\<close>

text \<open>A result reached on fuel \<open>k\<close> is reached on fuel \<open>k + 1\<close>, for each of the
  three functions of the collection.\<close>

definition collect_stable :: "nat \<Rightarrow> bool" where
  "collect_stable k =
     (\<forall>db iter cfg vis branch idx dir ndo m r.
        collectBranches k db iter cfg vis branch idx dir ndo m = Some r \<longrightarrow>
        collectBranches (Suc k) db iter cfg vis branch idx dir ndo m = Some r)"

definition walk_stable :: "nat \<Rightarrow> bool" where
  "walk_stable k =
     (\<forall>db iter cfg vis br idx dir nd n m r.
        walk k db iter cfg vis br idx dir nd n m = Some r \<longrightarrow>
        walk (Suc k) db iter cfg vis br idx dir nd n m = Some r)"

definition fork_stable :: "nat \<Rightarrow> bool" where
  "fork_stable k =
     (\<forall>db iter cfg vis br idx nd n i result m r.
        forkLoop k db iter cfg vis br idx nd n i result m = Some r \<longrightarrow>
        forkLoop (Suc k) db iter cfg vis br idx nd n i result m = Some r)"

subsection \<open>Branches free of visit-limited nodes\<close>

text \<open>\<open>clean vis bs\<close>: every branch of \<open>bs\<close> has a non-empty path with no node that
  the visit limitation rules out under \<open>vis\<close>.\<close>

definition clean :: "VisitSet \<Rightarrow> FlowBranch list \<Rightarrow> bool" where
  "clean vis bs = (\<forall>b \<in> set bs. path b \<noteq> [] \<and> (\<forall>nd \<in> set (path b). \<not> visitLimited nd vis))"

definition clean_result ::
  "VisitSet \<Rightarrow> ((FlowBranch list \<times> FlowState) \<times> mem) option \<Rightarrow> bool" where
  "clean_result vis res = (case res of None \<Rightarrow> True | Some ((bs, it), m') \<Rightarrow> clean vis bs)"

definition unlimited :: "VisitSet \<Rightarrow> node list \<Rightarrow> bool" where
  "unlimited vis p = (\<forall>nd \<in> set p. \<not> visitLimited nd vis)"

definition collect_clean :: "nat \<Rightarrow> bool" where
  "collect_clean k =
     (\<forall>db iter cfg vis branch idx dir ndo m.
        (\<forall>b. branch = Some b \<longrightarrow> unlimited vis (path b)) \<longrightarrow>
        clean_result vis (collectBranches k db iter cfg vis branch idx dir ndo m))"

definition walk_clean :: "nat \<Rightarrow> bool" where
  "walk_clean k =
     (\<forall>db iter cfg vis br idx dir nd n m.
        unlimited vis (path br) \<longrightarrow>
        clean_result vis (walk k db iter cfg vis br idx dir nd n m))"

definition fork_clean :: "nat \<Rightarrow> bool" where
  "fork_clean k =
     (\<forall>db iter cfg vis br idx nd n i result m.
        unlimited vis (path br) \<longrightarrow> clean vis result \<longrightarrow>
        clean_result vis (forkLoop k db iter cfg vis br idx nd n i result m))"

section \<open>A concrete flow\<close>

text \<open>
  The chain A, B, C. A is a hub, B and C are dialogue fragments, C is also an end node and
  may be visited only once. Stepping from A or from B writes a variable, and both report
  \<^verbatim>\<open>needsShadow\<close>. B carries three features; handlers are registered for the first
  and the third. The memory holds the module's \<^verbatim>\<open>{}\<close> at reference 0 and the store
  of the example states at reference 1; the script module has one array, at reference 0,
  and no dispatch is active.
\<close>

definition exA :: node where
  "exA = \<lparr>properties_Id = ''A'', types = [''Hub''], template = None, needsShadow = True\<rparr>"

definition exB :: node where
  "exB = \<lparr>properties_Id = ''B'', types = [''Dlg''],
          template = Some [(''Mood'', []), (''Sound'', []), (''Camera'', [])],
          needsShadow = True\<rparr>"

definition exC :: node where
  "exC = \<lparr>properties_Id = ''C'', types = [''Dlg'', ''End''],
          template = Some [(''Visit_Limitation'', [(''Only_Once'', VBool True)])],
          needsShadow = False\<rparr>"

definition exWorld :: world where
  "exWorld =
     \<lparr>getObject = (\<lambda>i. if i = ''A'' then Some exA else if i = ''B'' then Some exB
                        else if i = ''C'' then Some exC else None),
      numBranches = (\<lambda>nd vs l sh. (if properties_Id nd = ''C'' then 0 else 1, vs)),
      next_node = (\<lambda>nd vs b l sh.
                    if properties_Id nd = ''A'' then (Some exB, (''seenA'', VBool True) # vs)
                    else if properties_Id nd = ''B'' then (Some exC, (''seenB'', VBool True) # vs)
                    else (None, vs)),
      execute = (\<lambda>nd vs. (properties_Id nd, VBool True) # vs),
      newVariableStore = [(''score'', VNum 0)]\<rparr>"

definition exStops :: AdvancedIterationConfig where
  "exStops =
     \<lparr>stopAtTypes = [''Dlg''],
      customStopHandler =
        Some (\<lambda>nd vis. if properties_Id nd = ''B'' then Behaviour StopAndContinue
                        else Behaviour NormalStop)\<rparr>"

definition exEnd :: AdvancedIterationConfig where
  "exEnd = \<lparr>stopAtTypes = [''End''], customStopHandler = None\<rparr>"

definition noVisits :: VisitSet where
  "noVisits = \<lparr>counts = Map.empty, indicies = Map.empty\<rparr>"

definition visitedC :: VisitSet where
  "visitedC = \<lparr>counts = [''C'' \<mapsto> 1], indicies = [''C'' \<mapsto> 0]\<rparr>"

definition exMem :: mem where
  "exMem = \<lparr>stores = (\<lambda>r. if r = 1 then [(''score'', VNum 0)] else []), fresh = 2,
            clones = 0, console = []\<rparr>"

definition exIter :: FlowState where
  "exIter = \<lparr>id_f = Some ''A'', last_f = None, variables = 1, shadowing = Some True\<rparr>"

definition exState :: AdvancedFlowState where
  "exState = \<lparr>id_f = Some ''A'', last_f = None, variables = 1, shadowing = None,
              branches = [], visits = noVisits, turn = 0\<rparr>"

definition exReady :: AdvancedFlowState where
  "exReady = exState\<lparr>branches := [\<lparr>index = 0, path = [exB]\<rparr>, \<lparr>index = 1, path = [exB, exC]\<rparr>]\<rparr>"

definition exScript :: "unit script_state" where
  "exScript =
     \<lparr>state_ctx = None, actionQueue = None, arrays = (\<lambda>r. []), freshArray = 1,
      featureHandlers =
        [''Mood'' \<mapsto> [\<lambda>db f nd st. Generated (Yield ''mood'' (Return None))],
         ''Camera'' \<mapsto> [\<lambda>db f nd st. Generated (Yield ''camera'' (Return None))]],
      invoked = []\<rparr>"

text \<open>
  Two more flows. In the first the nodes of the chain that report \<^verbatim>\<open>needsShadow\<close>
  also write a variable when they are asked for their branches, and only they are executed
  with an effect. In the second the node P leads to a node object with the id Q that does
  not report \<^verbatim>\<open>needsShadow\<close>, while the database resolves the id Q to another object,
  which reports it and writes a variable when it is stepped from.
\<close>

definition askWorld :: world where
  "askWorld =
     exWorld\<lparr>numBranches :=
                (\<lambda>nd vs l sh. (if properties_Id nd = ''C'' then 0 else 1,
                                if needsShadow nd then (''asked'', VBool True) # vs else vs)),
              execute :=
                (\<lambda>nd vs. if needsShadow nd then (properties_Id nd, VBool True) # vs else vs)\<rparr>"

definition staleP :: node where
  "staleP = \<lparr>properties_Id = ''P'', types = [''Hub''], template = None, needsShadow = False\<rparr>"

definition staleQ :: node where
  "staleQ = \<lparr>properties_Id = ''Q'', types = [''Hub''], template = None, needsShadow = True\<rparr>"

definition staleQ_copy :: node where
  "staleQ_copy = \<lparr>properties_Id = ''Q'', types = [''Hub''], template = None, needsShadow = False\<rparr>"

definition staleWorld :: world where
  "staleWorld =
     \<lparr>getObject = (\<lambda>i. if i = ''P'' then Some staleP else if i = ''Q'' then Some staleQ else None),
      numBranches = (\<lambda>nd vs l sh. (1, vs)),
      next_node = (\<lambda>nd vs b l sh.
                    if properties_Id nd = ''P'' then (Some staleQ_copy, vs)
                    else if needsShadow nd then (None, (''ranQ'', VBool True) # vs)
                    else (None, vs)),
      execute = (\<lambda>nd vs. vs),
      newVariableStore = []\<rparr>"

definition staleState :: AdvancedFlowState where
  "staleState = exState\<lparr>id_f := Some ''P''\<rparr>"

definition exGen :: ScriptGenerator where
  "exGen = Yield ''addItem'' (Yield ''playSound'' (Return (Some (VNum 7))))"

definition exFunc :: "unit ScriptFunction" where
  "exFunc st db args = Generated exGen"

lemmas ex_defs = exA_def exB_def exC_def exWorld_def exStops_def noVisits_def
  exMem_def exState_def exScript_def

lemmas ex2_defs = exIter_def exReady_def

lemmas step_defs = no_id_def callNumBranches_def shadowStep_def basicNextFlowState_def
  cloneVariableStore_def newObject_def resetState_def
  visitLimited_def limit_feature_def visitCount_def stopCheck_def shouldStopAt_def is_type_def
  shadow_flag_def

section \<open>The result of a collection does not depend on the fuel\<close>

lemma collect_stable_step:
  assumes w: "walk_stable k"
  shows "collect_stable (Suc k)"
  unfolding collect_stable_def
proof (intro allI impI)
  fix db and iter :: FlowState and cfg vis and branch :: "FlowBranch option"
    and idx dir ndo and m :: mem and r
  assume a: "collectBranches (Suc k) db iter cfg vis branch idx dir ndo m = Some r"
  let ?look = "case ndo of Some nd \<Rightarrow> Some nd | None \<Rightarrow> getObject db (the (id_f iter))"
  let ?br = "case branch of Some b \<Rightarrow> b | None \<Rightarrow> \<lparr>index = idx, path = []\<rparr>"
  show "collectBranches (Suc (Suc k)) db iter cfg vis branch idx dir ndo m = Some r"
  proof (cases "no_id (id_f iter)")
    case True
    with a show ?thesis unfolding collectBranches.simps(2) [of "Suc k"] by simp
  next
    case noid: False
    show ?thesis
    proof (cases ?look)
      case None
      with a noid show ?thesis unfolding collectBranches.simps(2) [of "Suc k"] by simp
    next
      case (Some nd)
      obtain n m1 where c: "callNumBranches db nd iter m = (n, m1)"
        by (cases "callNumBranches db nd iter m")
      from a noid Some c have "walk k db iter cfg vis ?br idx dir nd n m1 = Some r"
        by (simp add: Let_def)
      with w have "walk (Suc k) db iter cfg vis ?br idx dir nd n m1 = Some r"
        unfolding walk_stable_def by blast
      with noid Some c show ?thesis
        unfolding collectBranches.simps(2) [of "Suc k"]
        by (simp add: Let_def del: walk.simps)
    qed
  qed
qed

lemma walk_stable_step:
  assumes c: "collect_stable k" and w: "walk_stable k" and f: "fork_stable k"
  shows "walk_stable (Suc k)"
  unfolding walk_stable_def
proof (intro allI impI)
  fix db and iter :: FlowState and cfg vis and br :: FlowBranch and idx dir nd n and m :: mem and r
  assume a: "walk (Suc k) db iter cfg vis br idx dir nd n m = Some r"
  show "walk (Suc (Suc k)) db iter cfg vis br idx dir nd n m = Some r"
  proof (cases "n = 1 \<or> dir \<ge> 0")
    case False
    with a have "forkLoop k db iter cfg vis br idx nd n 0 [] m = Some r" by simp
    with f have "forkLoop (Suc k) db iter cfg vis br idx nd n 0 [] m = Some r"
      unfolding fork_stable_def by blast
    with False show ?thesis
      unfolding walk.simps(2) [of "Suc k"] by (simp del: forkLoop.simps)
  next
    case True
    obtain iter1 m1 where sh: "shadowStep nd iter m = (iter1, m1)"
      by (cases "shadowStep nd iter m")
    obtain iter2 nxt m2 where nx: "basicNextFlowState db iter1 dir m1 = ((iter2, nxt), m2)"
      by (cases "basicNextFlowState db iter1 dir m1") auto
    show ?thesis
    proof (cases nxt)
      case None
      with a True sh nx show ?thesis unfolding walk.simps(2) [of "Suc k"] by simp
    next
      case (Some nd2)
      show ?thesis
      proof (cases "visitLimited nd2 vis")
        case True
        with a \<open>n = 1 \<or> dir \<ge> 0\<close> sh nx Some show ?thesis
          unfolding walk.simps(2) [of "Suc k"] by simp
      next
        case lim: False
        let ?br2 = "br\<lparr>path := path br @ [nd2]\<rparr>"
        show ?thesis
        proof (cases "stopCheck cfg nd2 vis")
          case ReturnBranch
          with a True sh nx Some lim show ?thesis
            unfolding walk.simps(2) [of "Suc k"] by simp
        next
          case (ReturnLogged s)
          with a True sh nx Some lim show ?thesis
            unfolding walk.simps(2) [of "Suc k"] by simp
        next
          case ForkPast
          let ?call = "\<lambda>j. collectBranches j db iter2 cfg vis
                  (Some \<lparr>index = idx + 1, path = path ?br2\<rparr>) (idx + 1) 0 (Some nd2) m2"
          from a True sh nx Some lim ForkPast obtain x where x: "?call k = Some x"
            by (cases "?call k") auto
          with c have x': "?call (Suc k) = Some x"
            unfolding collect_stable_def by blast
          from a True sh nx Some lim ForkPast x x' show ?thesis
            unfolding walk.simps(2) [of "Suc k"]
            by (simp del: collectBranches.simps)
        next
          case KeepWalking
          obtain n2 m3 where cn: "callNumBranches db nd2 iter2 m2 = (n2, m3)"
            by (cases "callNumBranches db nd2 iter2 m2")
          let ?call = "\<lambda>j. walk j db iter2 cfg vis ?br2 idx (- 1) nd2 n2 m3"
          from a True sh nx Some lim KeepWalking cn obtain x where x: "?call k = Some x"
            by (cases "?call k") auto
          with w have x': "?call (Suc k) = Some x"
            unfolding walk_stable_def by blast
          from a True sh nx Some lim KeepWalking cn x
          have "(case x of ((bs, it), m4) \<Rightarrow> Some ((bs, iter1), m4)) = Some r"
            by simp
          with True sh nx Some lim KeepWalking cn x' show ?thesis
            unfolding walk.simps(2) [of "Suc k"]
            by (simp del: walk.simps)
        qed
      qed
    qed
  qed
qed

lemma fork_stable_step:
  assumes c: "collect_stable k" and f: "fork_stable k"
  shows "fork_stable (Suc k)"
  unfolding fork_stable_def
proof (intro allI impI)
  fix db and iter :: FlowState and cfg vis and br :: FlowBranch
    and idx nd n i and result :: "FlowBranch list" and m :: mem and r
  assume a: "forkLoop (Suc k) db iter cfg vis br idx nd n i result m = Some r"
  let ?call = "\<lambda>j. collectBranches j db iter cfg vis (Some \<lparr>index = idx, path = path br\<rparr>)
                 idx i (Some nd) m"
  show "forkLoop (Suc (Suc k)) db iter cfg vis br idx nd n i result m = Some r"
  proof (cases "i < n")
    case False
    with a show ?thesis unfolding forkLoop.simps(2) [of "Suc k"] by simp
  next
    case True
    with a obtain x where x: "?call k = Some x"
      by (cases "?call k") auto
    obtain bs it m1 where xe: "x = ((bs, it), m1)" by (cases x) auto
    from c x have x': "?call (Suc k) = Some x"
      unfolding collect_stable_def by blast
    let ?idx' = "if length (result @ bs) > 0 then index (last (result @ bs)) + 1 else idx"
    from a True x xe
    have "forkLoop k db it cfg vis br ?idx' nd n (i + 1) (result @ bs) m1 = Some r"
      by (simp add: Let_def)
    with f have "forkLoop (Suc k) db it cfg vis br ?idx' nd n (i + 1) (result @ bs) m1 = Some r"
      unfolding fork_stable_def by blast
    with True x' xe show ?thesis
      unfolding forkLoop.simps(2) [of "Suc k"]
      by (simp add: Let_def del: collectBranches.simps forkLoop.simps)
  qed
qed

lemma stable_all: "collect_stable k \<and> walk_stable k \<and> fork_stable k"
proof (induction k)
  case 0
  show ?case by (simp add: collect_stable_def walk_stable_def fork_stable_def)
next
  case (Suc k)
  then show ?case using collect_stable_step walk_stable_step fork_stable_step by blast
qed

lemma collectBranches_more_fuel:
  "collectBranches k db iter cfg vis branch idx dir ndo m = Some r \<Longrightarrow>
   collectBranches (k + j) db iter cfg vis branch idx dir ndo m = Some r"
proof (induction j)
  case 0
  then show ?case by simp
next
  case (Suc j)
  then have "collectBranches (k + j) db iter cfg vis branch idx dir ndo m = Some r" by simp
  with stable_all [of "k + j"]
  have "collectBranches (Suc (k + j)) db iter cfg vis branch idx dir ndo m = Some r"
    unfolding collect_stable_def by blast
  then show ?case by (simp del: collectBranches.simps)
qed

lemma refreshBranches_more_fuel:
  "refreshBranches k db state cfg m = Some r \<Longrightarrow> refreshBranches (k + j) db state cfg m = Some r"
  by (auto simp: refreshBranches_def Let_def split: option.splits
           dest: collectBranches_more_fuel [where j = j])

section \<open>The script module: generators and feature handlers\<close>

lemma queueGeneratedActions_Yield:
  "queueGeneratedActions (Yield a g) sh s =
     queueGeneratedActions g sh
       (if \<not> sh \<and> actionQueue s \<noteq> None then push (the (actionQueue s)) a s else s)"
  by (simp add: queueGeneratedActions_def drain.simps [of "IterYield a"])

lemma queueGeneratedActions_Return:
  "queueGeneratedActions (Return v) sh s = ((v, Finished), s)"
  by (simp add: queueGeneratedActions_def drain.simps [of "IterReturn v"])

lemma queueGeneratedActions_Finished:
  "queueGeneratedActions Finished sh s = ((None, Finished), s)"
  by (simp add: queueGeneratedActions_def drain.simps [of "IterReturn None"])

lemmas queueGeneratedActions_simps =
  queueGeneratedActions_Yield queueGeneratedActions_Return queueGeneratedActions_Finished

lemma queue_shadow: "queueGeneratedActions g True s = ((gen_return g, Finished), s)"
  by (induction g arbitrary: s) (simp_all add: queueGeneratedActions_simps)

lemma queue_undefined:
  "actionQueue s = None \<Longrightarrow> queueGeneratedActions g sh s = ((gen_return g, Finished), s)"
  by (induction g arbitrary: s) (simp_all add: queueGeneratedActions_simps)

lemma queue_committed:
  "actionQueue s = Some q \<Longrightarrow>
   queueGeneratedActions g False s =
     ((gen_return g, Finished), s\<lparr>arrays := (arrays s)(q := arrays s q @ gen_actions g)\<rparr>)"
proof (induction g arbitrary: s)
  case (Yield a g)
  have "actionQueue (push q a s) = Some q" using Yield.prems by (simp add: push_def)
  from Yield.IH [OF this] Yield.prems show ?case
    by (simp add: queueGeneratedActions_simps push_def fun_upd_def cong: if_cong)
qed (simp_all add: queueGeneratedActions_simps)

lemma queue_featureHandlers:
  "featureHandlers (snd (queueGeneratedActions g sh s)) = featureHandlers s"
  by (induction g arbitrary: s) (simp_all add: queueGeneratedActions_simps push_def)

lemma queue_invoked:
  "invoked (snd (queueGeneratedActions g sh s)) = invoked s"
  by (induction g arbitrary: s) (simp_all add: queueGeneratedActions_simps push_def)


text \<open>
  Claim C8. A native function that returns a generator, wrapped with the shadowing flag
  true: the generator is run to its end (it is left finished), the script state and with it
  every queue is as before, and the result is the value the generator returned.
\<close>

theorem shadow_generator_drained:
  "func st db args = Generated g \<Longrightarrow>
     wrapScriptFunction func st db True args s = (gen_return g, s) \<and>
     queueGeneratedActions g True s = ((gen_return g, Finished), s)"
  by (simp add: wrapScriptFunction_def queue_shadow)

theorem shadow_generator_drained_witness:
  "exFunc None exWorld [] = Generated exGen \<and>
   wrapScriptFunction exFunc None exWorld True [] (exScript\<lparr>actionQueue := Some 0\<rparr>)
     = (Some (VNum 7), exScript\<lparr>actionQueue := Some 0\<rparr>) \<and>
   queueGeneratedActions exGen True (exScript\<lparr>actionQueue := Some 0\<rparr>)
     = ((Some (VNum 7), Finished), exScript\<lparr>actionQueue := Some 0\<rparr>) \<and>
   arrays (snd (queueGeneratedActions exGen False (exScript\<lparr>actionQueue := Some 0\<rparr>))) 0
     = [''addItem'', ''playSound'']"
proof -
  have f: "exFunc None exWorld [] = Generated exGen" by (simp add: exFunc_def)
  have q: "actionQueue (exScript\<lparr>actionQueue := Some 0\<rparr>) = Some 0" by simp
  from shadow_generator_drained [of exFunc None exWorld "[]" exGen
      "exScript\<lparr>actionQueue := Some 0\<rparr>"] f
    queue_committed [OF q, of exGen]
  show ?thesis by (simp add: exGen_def exScript_def)
qed

lemma runHandlers_featureHandlers:
  "featureHandlers (runHandlers hs key db feature nd state s) = featureHandlers s"
  by (induction hs arbitrary: s) (simp_all add: queue_featureHandlers Let_def split: script_value.splits)

lemma runHandlers_invoked:
  "invoked (runHandlers hs key db feature nd state s) = invoked s @ replicate (length hs) key"
  by (induction hs arbitrary: s)
     (simp_all add: queue_invoked replicate_app_Cons_same Let_def split: script_value.splits)

lemma runFeatures_invoked:
  "set (invoked (runFeatures t db nd state s)) \<subseteq> set (invoked s) \<union> fst ` set t"
proof (induction t arbitrary: s)
  case Nil
  show ?case by simp
next
  case (Cons kf t)
  obtain key feature where kf: "kf = (key, feature)" by (cases kf)
  show ?case
  proof (cases "featureHandlers s key")
    case None
    then show ?thesis by (auto simp: kf)
  next
    case (Some hs)
    have "set (invoked (runFeatures t db nd state (runHandlers hs key db feature nd state s)))
            \<subseteq> set (invoked (runHandlers hs key db feature nd state s)) \<union> fst ` set t"
      by (rule Cons.IH)
    then show ?thesis using Some by (auto simp: kf runHandlers_invoked)
  qed
qed

lemma runFeatures_unhandled:
  "featureHandlers s key = None \<Longrightarrow>
   runFeatures (pre @ (key, feature) # post) db nd state s = runFeatures pre db nd state s"
proof (induction pre arbitrary: s)
  case Nil
  then show ?case by simp
next
  case (Cons kf pre)
  obtain k f where kf: "kf = (k, f)" by (cases kf)
  show ?case
  proof (cases "featureHandlers s k")
    case None
    then show ?thesis by (simp add: kf)
  next
    case (Some hs)
    have "featureHandlers (runHandlers hs k db f nd state s) key = None"
      using Cons.prems by (simp add: runHandlers_featureHandlers)
    from Cons.IH [OF this] Some show ?thesis by (simp add: kf)
  qed
qed

text \<open>
  Claim C9. When the template of a node lists a feature without registered handlers,
  \<^verbatim>\<open>OnNodeExecution\<close> does what it does for the features before that one and returns:
  whatever comes after it in the template has no effect, and the only handlers called are
  those of the features before it.
\<close>

theorem OnNodeExecution_returns_at_unhandled_feature:
  assumes "template nd = Some (pre @ (key, feature) # post)"
    and "featureHandlers s key = None"
  shows "OnNodeExecution db nd state s = runFeatures pre db nd state s \<and>
         set (invoked (OnNodeExecution db nd state s)) \<subseteq> set (invoked s) \<union> fst ` set pre"
proof -
  have "OnNodeExecution db nd state s = runFeatures pre db nd state s"
    using assms by (simp add: OnNodeExecution_def runFeatures_unhandled)
  then show ?thesis using runFeatures_invoked [of pre db nd state s] by simp
qed

theorem OnNodeExecution_returns_at_unhandled_feature_witness:
  "template exB = Some ([(''Mood'', [])] @ (''Sound'', []) # [(''Camera'', [])]) \<and>
   featureHandlers (exScript\<lparr>actionQueue := Some 0\<rparr>) ''Sound'' = None \<and>
   featureHandlers (exScript\<lparr>actionQueue := Some 0\<rparr>) ''Camera'' \<noteq> None \<and>
   invoked (OnNodeExecution exWorld exB exState (exScript\<lparr>actionQueue := Some 0\<rparr>)) = [''Mood''] \<and>
   arrays (OnNodeExecution exWorld exB exState (exScript\<lparr>actionQueue := Some 0\<rparr>)) 0 = [''mood'']"
proof -
  have t: "template exB = Some ([(''Mood'', [])] @ (''Sound'', []) # [(''Camera'', [])])"
    by (simp add: exB_def)
  have h: "featureHandlers (exScript\<lparr>actionQueue := Some 0\<rparr>) ''Sound'' = None"
    by (simp add: exScript_def)
  from OnNodeExecution_returns_at_unhandled_feature [OF t h, of exWorld exState] t h
  show ?thesis
    by (simp add: exScript_def queueGeneratedActions_simps push_def Let_def)
qed

text \<open>
  Claim C10. Outside a dispatch the action queue is undefined. Then a native function that
  returns a generator, wrapped in committed mode, returns the generator's value and leaves
  the script state as it was: the actions are dropped and nothing is reported. The
  middleware hands \<^verbatim>\<open>next\<close> a state whose queue is the array it has just made, and
  leaves the queue undefined again, provided the store's dispatch leaves it so.
\<close>

theorem generated_actions_lost_without_dispatch:
  assumes "actionQueue s = None" and "func st db args = Generated g"
    and "\<forall>a t. actionQueue t = None \<longrightarrow> actionQueue (dispatch a t) = None"
  shows "wrapScriptFunction func st db False args s = (gen_return g, s) \<and>
         fst (createScriptDispatchMiddleware fin gs dispatch (\<lambda>a t. (actionQueue t, t)) action s)
           = Some (freshArray s) \<and>
         actionQueue (snd (createScriptDispatchMiddleware fin gs dispatch nxt action s)) = None"
proof -
  have d: "actionQueue t = None \<Longrightarrow> actionQueue (fold dispatch as t) = None" for as t
    using assms(3) by (induction as arbitrary: t) simp_all
  have 1: "wrapScriptFunction func st db False args s = (gen_return g, s)"
    using assms(1,2) by (simp add: wrapScriptFunction_def queue_undefined)
  have 2: "fst (createScriptDispatchMiddleware fin gs dispatch (\<lambda>a t. (actionQueue t, t)) action s)
             = Some (freshArray s)"
    by (simp add: createScriptDispatchMiddleware_def newArray_def Let_def)
  have 3: "actionQueue (snd (createScriptDispatchMiddleware fin gs dispatch nxt action s)) = None"
    using assms(3) by (simp add: createScriptDispatchMiddleware_def newArray_def Let_def d split: prod.splits)
  from 1 2 3 show ?thesis by simp
qed

theorem generated_actions_lost_without_dispatch_witness:
  "actionQueue exScript = None \<and> exFunc None exWorld [] = Generated exGen \<and>
   wrapScriptFunction exFunc None exWorld False [] exScript = (Some (VNum 7), exScript) \<and>
   fst (createScriptDispatchMiddleware None () (\<lambda>a t. t) (\<lambda>a t. (actionQueue t, t)) ''tick'' exScript)
     = Some 1 \<and>
   actionQueue (snd (createScriptDispatchMiddleware None () (\<lambda>a t. t)
        (\<lambda>a t. wrapScriptFunction exFunc (state_ctx t) exWorld False [] t) ''tick'' exScript)) = None \<and>
   arrays (snd (createScriptDispatchMiddleware None () (\<lambda>a t. t)
        (\<lambda>a t. wrapScriptFunction exFunc (state_ctx t) exWorld False [] t) ''tick'' exScript)) 1
     = [''addItem'', ''playSound'']"
proof -
  have a: "actionQueue exScript = None" by (simp add: exScript_def)
  have f: "exFunc None exWorld [] = Generated exGen" by (simp add: exFunc_def)
  have d: "\<forall>a t. actionQueue t = None \<longrightarrow> actionQueue ((\<lambda>a t. t) a (t :: unit script_state)) = None"
    by simp
  have fr: "freshArray exScript = 1" by (simp add: exScript_def)
  have run: "arrays (snd (createScriptDispatchMiddleware None () (\<lambda>a t. t)
        (\<lambda>a t. wrapScriptFunction exFunc (state_ctx t) exWorld False [] t) ''tick'' exScript)) 1
     = [''addItem'', ''playSound'']"
    by (simp add: createScriptDispatchMiddleware_def newArray_def wrapScriptFunction_def exFunc_def
        exGen_def exScript_def queueGeneratedActions_simps push_def Let_def)
  from generated_actions_lost_without_dispatch [where s = exScript and func = exFunc
      and st = None and db = exWorld and args = "[]" and g = exGen and dispatch = "\<lambda>a t. t"
      and fin = None and gs = "()" and action = "''tick''"
      and nxt = "\<lambda>a t. wrapScriptFunction exFunc (state_ctx t) exWorld False [] t"]
    a f d fr run
  show ?thesis by (simp add: exGen_def)
qed

section \<open>The basic step\<close>

text \<open>
  Claim C4, as the code has it. Without a current id \<^verbatim>\<open>basicNextFlowState\<close> returns
  the state it was given, unchanged, and no node. With an id that resolves to no node, or
  to a node without a target for the branch, it returns no node and the reset state: no id,
  no last id, the shadowing flag of the input, and a new, empty variable store.
\<close>

theorem basicNextFlowState_terminal:
  "(no_id (id_f state) \<longrightarrow> basicNextFlowState db state branchIndex m = ((state, None), m)) \<and>
   (\<not> no_id (id_f state) \<and>
    (case getObject db (the (id_f state)) of
       None \<Rightarrow> True
     | Some nd \<Rightarrow> fst (next_node db nd (stores m (variables state)) branchIndex (last_f state)
                        (shadow_flag (shadowing state))) = None) \<longrightarrow>
    snd (fst (basicNextFlowState db state branchIndex m)) = None \<and>
    id_f (fst (fst (basicNextFlowState db state branchIndex m))) = None \<and>
    last_f (fst (fst (basicNextFlowState db state branchIndex m))) = None \<and>
    shadowing (fst (fst (basicNextFlowState db state branchIndex m))) = shadowing state \<and>
    variables (fst (fst (basicNextFlowState db state branchIndex m))) \<ge> fresh m \<and>
    stores (snd (basicNextFlowState db state branchIndex m))
      (variables (fst (fst (basicNextFlowState db state branchIndex m)))) = [])"
  by (auto simp: basicNextFlowState_def resetState_def newObject_def Let_def
           split: option.splits prod.splits)

text \<open>The claim as it is written fails for a state without an id: the state comes back
  with its last id and its variables, here \<open>A\<close> and the store with \<open>score\<close>.\<close>

theorem basicNextFlowState_no_id_counterexample:
  "snd (fst (basicNextFlowState exWorld (exIter\<lparr>id_f := None, last_f := Some ''A''\<rparr>) 0 exMem)) = None \<and>
   last_f (fst (fst (basicNextFlowState exWorld (exIter\<lparr>id_f := None, last_f := Some ''A''\<rparr>) 0 exMem)))
     = Some ''A'' \<and>
   stores (snd (basicNextFlowState exWorld (exIter\<lparr>id_f := None, last_f := Some ''A''\<rparr>) 0 exMem))
     (variables (fst (fst (basicNextFlowState exWorld (exIter\<lparr>id_f := None, last_f := Some ''A''\<rparr>) 0 exMem))))
     = [(''score'', VNum 0)]"
  by (simp add: basicNextFlowState_def no_id_def ex_defs ex2_defs)

theorem basicNextFlowState_terminal_witness:
  "no_id (id_f (exIter\<lparr>id_f := Some []\<rparr>)) \<and>
   basicNextFlowState exWorld (exIter\<lparr>id_f := Some []\<rparr>) 0 exMem
     = ((exIter\<lparr>id_f := Some []\<rparr>, None), exMem) \<and>
   \<not> no_id (id_f (exIter\<lparr>id_f := Some ''C''\<rparr>)) \<and>
   getObject exWorld ''C'' = Some exC \<and>
   id_f (fst (fst (basicNextFlowState exWorld (exIter\<lparr>id_f := Some ''C''\<rparr>) 0 exMem))) = None \<and>
   last_f (fst (fst (basicNextFlowState exWorld (exIter\<lparr>id_f := Some ''C''\<rparr>) 0 exMem))) = None \<and>
   variables (fst (fst (basicNextFlowState exWorld (exIter\<lparr>id_f := Some ''C''\<rparr>) 0 exMem))) = 2 \<and>
   stores (snd (basicNextFlowState exWorld (exIter\<lparr>id_f := Some ''C''\<rparr>) 0 exMem)) 2 = []"
proof -
  have a: "no_id (id_f (exIter\<lparr>id_f := Some []\<rparr>))" by (simp add: no_id_def)
  have b: "\<not> no_id (id_f (exIter\<lparr>id_f := Some ''C''\<rparr>))" by (simp add: no_id_def)
  have c: "getObject exWorld ''C'' = Some exC" by (simp add: exWorld_def)
  have d: "fst (next_node exWorld exC vs i l sh) = None" for vs i l sh
    by (simp add: exWorld_def exC_def)
  from basicNextFlowState_terminal [of "exIter\<lparr>id_f := Some []\<rparr>" exWorld 0 exMem]
    basicNextFlowState_terminal [of "exIter\<lparr>id_f := Some ''C''\<rparr>" exWorld 0 exMem]
    a b c d
  show ?thesis
    by (simp add: ex_defs ex2_defs step_defs)
qed

section \<open>Branch collection\<close>

text \<open>
  Claim C1. A chain A, B, C in which A has one branch, to B, and the branch 0 of B leads to
  C; B and C are of a stop type, the custom handler answers \<^verbatim>\<open>STOP_AND_CONTINUE\<close> at
  B and \<^verbatim>\<open>NORMAL_STOP\<close> at C, and neither is ruled out by a visit limitation. From A,
  on any fuel from four on, \<^verbatim>\<open>collectBranches\<close> returns two branches: index 0 with the
  path [B], and index 1 with the path [B, C].
\<close>

theorem stop_and_continue_chain:
  assumes a: "id_f iter = Some ida" "ida \<noteq> []" "getObject db ida = Some a"
    and a1: "\<forall>vs l sh. fst (numBranches db a vs l sh) = 1"
    and ab: "\<forall>vs l sh. fst (next_node db a vs (- 1) l sh) = Some b"
    and b: "properties_Id b \<noteq> []" "getObject db (properties_Id b) = Some b"
    and bc: "\<forall>vs l sh. fst (next_node db b vs 0 l sh) = Some c"
    and stops: "shouldStopAt b (stopAtTypes cfg)" "shouldStopAt c (stopAtTypes cfg)"
    and h: "customStopHandler cfg = Some h" "h b vis = Behaviour StopAndContinue"
      "h c vis = Behaviour NormalStop"
    and lim: "\<not> visitLimited b vis" "\<not> visitLimited c vis"
  shows "map_option (\<lambda>r. fst (fst r))
           (collectBranches (Suc (Suc (Suc (Suc k)))) db iter cfg vis None 0 (- 1) None m)
         = Some [\<lparr>index = 0, path = [b]\<rparr>, \<lparr>index = 1, path = [b, c]\<rparr>]"
proof -
  have noid: "\<not> no_id (id_f iter)" using a by (simp add: no_id_def)
  obtain n m1 where cn: "callNumBranches db a iter m = (n, m1)"
    by (cases "callNumBranches db a iter m")
  then have n: "n = 1" using a1
    by (auto simp: callNumBranches_def split: prod.splits dest: arg_cong [where f = fst])
  obtain iter1 m2 where sh: "shadowStep a iter m1 = (iter1, m2)"
    by (cases "shadowStep a iter m1")
  then have i1: "id_f iter1 = Some ida"
    using a by (auto simp: shadowStep_def cloneVariableStore_def split: if_splits)
  obtain iter2 nxt m3 where nx: "basicNextFlowState db iter1 (- 1) m2 = ((iter2, nxt), m3)"
    by (cases "basicNextFlowState db iter1 (- 1) m2") auto
  have nx': "nxt = Some b" "id_f iter2 = Some (properties_Id b)"
    using nx i1 a ab
    by (auto simp: basicNextFlowState_def no_id_def Let_def split: prod.splits option.splits
             dest: arg_cong [where f = fst])
  have sb: "stopCheck cfg b vis = ForkPast" "stopCheck cfg c vis = ReturnBranch"
    using stops h by (simp_all add: stopCheck_def)
  \<comment> \<open>the collection past B, with direction 0 forced\<close>
  have noid2: "\<not> no_id (id_f iter2)" using nx' b by (simp add: no_id_def)
  obtain n2 m4 where cn2: "callNumBranches db b iter2 m3 = (n2, m4)"
    by (cases "callNumBranches db b iter2 m3")
  obtain iter3 m5 where sh2: "shadowStep b iter2 m4 = (iter3, m5)"
    by (cases "shadowStep b iter2 m4")
  then have i3: "id_f iter3 = Some (properties_Id b)"
    using nx' by (auto simp: shadowStep_def cloneVariableStore_def split: if_splits)
  obtain iter4 nxt2 m6 where nx2: "basicNextFlowState db iter3 0 m5 = ((iter4, nxt2), m6)"
    by (cases "basicNextFlowState db iter3 0 m5") auto
  have nx2': "nxt2 = Some c"
    using nx2 i3 b bc
    by (auto simp: basicNextFlowState_def no_id_def Let_def split: prod.splits option.splits
             dest: arg_cong [where f = fst])
  have inner: "collectBranches (Suc (Suc k)) db iter2 cfg vis
                 (Some \<lparr>index = 0 + 1, path = [b]\<rparr>) (0 + 1) 0 (Some b) m3
               = Some (([\<lparr>index = 1, path = [b, c]\<rparr>], iter3), m6)"
    using noid2 cn2 sh2 nx2 nx2' lim sb by simp
  show ?thesis
    using noid a cn n sh nx nx' lim sb inner
    by (simp del: collectBranches.simps walk.simps
             add: collectBranches.simps(2) [of "Suc (Suc (Suc k))"]
                  walk.simps(2) [of "Suc (Suc k)"])
qed

theorem stop_and_continue_chain_witness:
  "id_f exIter = Some ''A'' \<and> getObject exWorld ''A'' = Some exA \<and>
   shouldStopAt exB (stopAtTypes exStops) \<and> shouldStopAt exC (stopAtTypes exStops) \<and>
   \<not> visitLimited exB noVisits \<and> \<not> visitLimited exC noVisits \<and>
   map_option (\<lambda>r. fst (fst r))
     (collectBranches (Suc (Suc (Suc (Suc 0)))) exWorld exIter exStops noVisits None 0 (- 1) None exMem)
   = Some [\<lparr>index = 0, path = [exB]\<rparr>, \<lparr>index = 1, path = [exB, exC]\<rparr>]"
proof -
  have 1: "id_f exIter = Some ''A''" "''A'' \<noteq> []" "getObject exWorld ''A'' = Some exA"
    by (simp_all add: ex_defs ex2_defs)
  have 2: "\<forall>vs l sh. fst (numBranches exWorld exA vs l sh) = 1"
    by (simp add: ex_defs)
  have 3: "\<forall>vs l sh. fst (next_node exWorld exA vs (- 1) l sh) = Some exB"
    by (simp add: exWorld_def exA_def)
  have 4: "properties_Id exB \<noteq> []" "getObject exWorld (properties_Id exB) = Some exB"
    by (simp_all add: exWorld_def exB_def)
  have 5: "\<forall>vs l sh. fst (next_node exWorld exB vs 0 l sh) = Some exC"
    by (simp add: exWorld_def exB_def)
  have 6: "shouldStopAt exB (stopAtTypes exStops)" "shouldStopAt exC (stopAtTypes exStops)"
    by (simp_all add: ex_defs shouldStopAt_def is_type_def)
  have 7: "customStopHandler exStops
             = Some (\<lambda>nd vis. if properties_Id nd = ''B'' then Behaviour StopAndContinue
                               else Behaviour NormalStop)"
    by (simp add: exStops_def)
  have 8: "\<not> visitLimited exB noVisits" "\<not> visitLimited exC noVisits"
    by (simp_all add: ex_defs visitLimited_def limit_feature_def visitCount_def)
  from stop_and_continue_chain [OF 1 2 3 4 5 6 7 _ _ 8, of 0 exMem] 1 6 8
  show ?thesis by (simp add: exB_def exC_def)
qed

subsection \<open>Cloning of the variable store\<close>

text \<open>
  Claim C3 does not hold of \<^verbatim>\<open>collectBranches\<close>: the loop has no flag that remembers
  a clone, so it clones at every node of the path that needs a shadow. On the chain A, B, C
  with A and B both in need of one, the single branch [B, C] costs two clones.
\<close>

theorem collectBranches_clones_per_node:
  "clones (snd (the (collectBranches 4 exWorld exIter exEnd noVisits None 0 (- 1) None exMem)))
     = clones exMem + 2 \<and>
   fst (fst (the (collectBranches 4 exWorld exIter exEnd noVisits None 0 (- 1) None exMem)))
     = [\<lparr>index = 0, path = [exB, exC]\<rparr>]"
  by (simp add: ex_defs ex2_defs exEnd_def step_defs eval_nat_numeral Let_def)

theorem collectBranches_clones_per_node_witness:
  "clones (snd (the (collectBranches 4 exWorld exIter exEnd noVisits None 0 (- 1) None exMem))) = 2 \<and>
   length (fst (fst (the (collectBranches 4 exWorld exIter exEnd noVisits None 0 (- 1) None exMem)))) = 1"
  using collectBranches_clones_per_node by (simp add: exMem_def)

text \<open>The committing walk of \<^verbatim>\<open>advancedNextFlowState\<close> has the flag
  \<^verbatim>\<open>hasCloned\<close> and clones at most once for a whole path.\<close>

lemma executePath_clones:
  "clones (fst (snd (executePath db state p vars hc vis m s)))
     \<le> (if hc then clones m else Suc (clones m))"
proof (induction p arbitrary: vars hc vis m s)
  case Nil
  show ?case by simp
next
  case (Cons a p)
  show ?case
    by (auto simp: Let_def cloneVariableStore_def split: prod.splits
             intro!: order_trans [OF Cons.IH])
qed

subsection \<open>Isolation of the committed variables\<close>

lemma frame_refl: "frame m m"
  by (simp add: frame_def)

lemma frame_trans: "frame m1 m2 \<Longrightarrow> frame m2 m3 \<Longrightarrow> frame m1 m3"
  by (auto simp: frame_def)

lemma frame_console: "frame m (m'\<lparr>console := c\<rparr>) = frame m m'"
  by (simp add: frame_def)

lemma callNumBranches_reads:
  assumes "numBranches_reads db" and "getObject db i = Some nd"
    and "callNumBranches db nd iter m = (n, m1)"
  shows "m1 = m"
proof -
  have "snd (numBranches db nd (stores m (variables iter)) (last_f iter)
               (shadow_flag (shadowing iter))) = stores m (variables iter)"
    using assms(1,2) unfolding numBranches_reads_def by blast
  then show ?thesis using assms(3)
    by (auto simp: callNumBranches_def split: prod.splits)
qed

lemma step_frame:
  assumes db: "consistent_db db" "writes_need_shadow db"
    and nd: "getObject db (the (id_f iter)) = Some nd"
    and v: "variables iter < fresh m"
    and sh: "shadowStep nd iter m = (iter1, m1)"
    and nx: "basicNextFlowState db iter1 dir m1 = ((iter2, nxt), m2)"
  shows "frame m m2 \<and> variables iter1 < fresh m2 \<and> id_f iter1 = id_f iter \<and>
         (\<forall>nd2. nxt = Some nd2 \<longrightarrow>
            variables iter2 < fresh m2 \<and> getObject db (the (id_f iter2)) = Some nd2)"
proof -
  have s1: "id_f iter1 = id_f iter" "last_f iter1 = last_f iter" "shadowing iter1 = shadowing iter"
    using sh by (auto simp: shadowStep_def cloneVariableStore_def split: if_splits)
  have s2: "frame m m1" "variables iter1 < fresh m1"
    using sh v by (auto simp: shadowStep_def cloneVariableStore_def frame_def split: if_splits)
  have s3: "needsShadow nd \<Longrightarrow> fresh m \<le> variables iter1"
    using sh by (auto simp: shadowStep_def cloneVariableStore_def split: if_splits)
  have s4: "\<not> needsShadow nd \<Longrightarrow> iter1 = iter \<and> m1 = m"
    using sh by (auto simp: shadowStep_def)
  have w: "\<not> needsShadow nd \<Longrightarrow> snd (next_node db nd vs b l f) = vs" for vs b l f
    using db(2) nd unfolding writes_need_shadow_def by blast
  have c: "fst (next_node db nd vs b l f) = Some n' \<Longrightarrow> getObject db (properties_Id n') = Some n'"
    for vs b l f n'
    using db(1) nd unfolding consistent_db_def by blast
  let ?r = "next_node db nd (stores m1 (variables iter1)) dir (last_f iter1)
              (shadow_flag (shadowing iter1))"
  let ?mw = "m1\<lparr>stores := (stores m1)(variables iter1 := snd ?r)\<rparr>"
  have fw: "frame m ?mw"
  proof (cases "needsShadow nd")
    case True
    with s3 s2 show ?thesis by (auto simp: frame_def)
  next
    case False
    with s4 w [of "stores m (variables iter)" dir "last_f iter" "shadow_flag (shadowing iter)"]
    show ?thesis by (simp add: frame_def)
  qed
  have fresh_w: "fresh ?mw = fresh m1" by simp
  show ?thesis
  proof (cases "no_id (id_f iter1)")
    case True
    with nx have "iter2 = iter1" "nxt = None" "m2 = m1"
      by (auto simp: basicNextFlowState_def)
    with s1 s2 show ?thesis by simp
  next
    case False
    show ?thesis
    proof (cases "fst ?r")
      case None
      with False nx nd s1 have "frame ?mw m2" "nxt = None"
        by (auto simp: basicNextFlowState_def Let_def resetState_def newObject_def frame_def
                 split: prod.splits)
      with fw frame_trans s2 s1 show ?thesis
        by (auto simp: frame_def)
    next
      case (Some n')
      with False nx nd s1 have e: "m2 = ?mw" "nxt = Some n'"
          "id_f iter2 = Some (properties_Id n')" "variables iter2 = variables iter1"
        by (auto simp: basicNextFlowState_def Let_def split: prod.splits)
      from c [OF Some] e fw s2 s1 show ?thesis by simp
    qed
  qed
qed

lemma keeps_Some: "keeps m iter (Some ((bs, it), m')) =
   (frame m m' \<and> variables it < fresh m' \<and> id_f it = id_f iter)"
  by (simp add: keeps_def)

lemma keeps_None: "keeps m iter None"
  by (simp add: keeps_def)

lemma keeps_weaken:
  "keeps m1 it res \<Longrightarrow> frame m m1 \<Longrightarrow> id_f it = id_f iter \<Longrightarrow> keeps m iter res"
  by (auto simp: keeps_def intro: frame_trans split: option.splits)

lemma keeps_after:
  assumes "keeps m2 iter2 res" and "frame m m2" and "variables iter1 < fresh m2"
    and "id_f iter1 = id_f iter"
  shows "keeps m iter (case res of None \<Rightarrow> None | Some ((bs, it), m3) \<Rightarrow> Some ((f bs, iter1), m3))"
  using assms by (auto simp: keeps_def frame_def split: option.splits)

lemma collect_keeps_step:
  assumes db: "numBranches_reads db" and w: "walk_keeps db k"
  shows "collect_keeps db (Suc k)"
  unfolding collect_keeps_def
proof (intro allI impI)
  fix iter :: FlowState and cfg vis branch idx dir ndo and m :: mem
  assume nd: "\<forall>nd. ndo = Some nd \<longrightarrow> getObject db (the (id_f iter)) = Some nd"
    and v: "variables iter < fresh m"
  let ?look = "case ndo of Some nd \<Rightarrow> Some nd | None \<Rightarrow> getObject db (the (id_f iter))"
  show "keeps m iter (collectBranches (Suc k) db iter cfg vis branch idx dir ndo m)"
  proof (cases "no_id (id_f iter)")
    case True
    then show ?thesis using v by (simp add: keeps_Some frame_refl)
  next
    case noid: False
    show ?thesis
    proof (cases ?look)
      case None
      then show ?thesis using v noid by (simp add: keeps_Some frame_refl)
    next
      case (Some x)
      then have g: "getObject db (the (id_f iter)) = Some x"
        using nd by (cases ndo) auto
      obtain n m1 where c: "callNumBranches db x iter m = (n, m1)"
        by (cases "callNumBranches db x iter m")
      have "m1 = m" by (rule callNumBranches_reads [OF db g c])
      with c Some noid w g v show ?thesis
        by (simp add: walk_keeps_def Let_def)
    qed
  qed
qed

lemma walk_keeps_step:
  assumes db: "consistent_db db" "numBranches_reads db" "writes_need_shadow db"
    and c: "collect_keeps db k" and w: "walk_keeps db k" and f: "fork_keeps db k"
  shows "walk_keeps db (Suc k)"
  unfolding walk_keeps_def
proof (intro allI impI)
  fix iter :: FlowState and cfg vis and br :: FlowBranch and idx dir nd n and m :: mem
  assume nd: "getObject db (the (id_f iter)) = Some nd" and v: "variables iter < fresh m"
  show "keeps m iter (walk (Suc k) db iter cfg vis br idx dir nd n m)"
  proof (cases "n = 1 \<or> dir \<ge> 0")
    case False
    then show ?thesis using f nd v by (simp add: fork_keeps_def)
  next
    case True
    obtain iter1 m1 where sh: "shadowStep nd iter m = (iter1, m1)"
      by (cases "shadowStep nd iter m")
    obtain iter2 nxt m2 where nx: "basicNextFlowState db iter1 dir m1 = ((iter2, nxt), m2)"
      by (cases "basicNextFlowState db iter1 dir m1") auto
    note sf = step_frame [OF db(1) db(3) nd v sh nx]
    have base: "keeps m iter (Some ((bs, iter1), m2))" for bs
      using sf by (simp add: keeps_Some)
    show ?thesis
    proof (cases nxt)
      case None
      then show ?thesis using True sh nx base by simp
    next
      case (Some nd2)
      with sf have i2: "variables iter2 < fresh m2" "getObject db (the (id_f iter2)) = Some nd2"
        by simp_all
      show ?thesis
      proof (cases "visitLimited nd2 vis")
        case True
        then show ?thesis using \<open>n = 1 \<or> dir \<ge> 0\<close> sh nx Some base by simp
      next
        case lim: False
        let ?br2 = "br\<lparr>path := path br @ [nd2]\<rparr>"
        show ?thesis
        proof (cases "stopCheck cfg nd2 vis")
          case ReturnBranch
          then show ?thesis using True sh nx Some lim base by simp
        next
          case (ReturnLogged s)
          have "keeps m iter (Some (([?br2], iter1), m2\<lparr>console := console m2 @ [unexpectedMessage s]\<rparr>))"
            using sf by (simp add: keeps_Some frame_console)
          then show ?thesis using True sh nx Some lim ReturnLogged by simp
        next
          case ForkPast
          have "keeps m2 iter2 (collectBranches k db iter2 cfg vis
                  (Some \<lparr>index = idx + 1, path = path ?br2\<rparr>) (idx + 1) 0 (Some nd2) m2)"
            using c i2 by (simp add: collect_keeps_def)
          from keeps_after [OF this, of m iter1 iter "\<lambda>bs. ?br2 # bs"] sf
          show ?thesis using True sh nx Some lim ForkPast
            by (simp add: keeps_Some)
        next
          case KeepWalking
          obtain n2 m3 where cn: "callNumBranches db nd2 iter2 m2 = (n2, m3)"
            by (cases "callNumBranches db nd2 iter2 m2")
          have m3: "m3 = m2" by (rule callNumBranches_reads [OF db(2) i2(2) cn])
          have "keeps m2 iter2 (walk k db iter2 cfg vis ?br2 idx (- 1) nd2 n2 m2)"
            using w i2 by (simp add: walk_keeps_def)
          from keeps_after [OF this, of m iter1 iter "\<lambda>bs. bs"] sf
          show ?thesis using True sh nx Some lim KeepWalking cn m3
            by (simp add: keeps_Some)
        qed
      qed
    qed
  qed
qed

lemma fork_keeps_step:
  assumes c: "collect_keeps db k" and f: "fork_keeps db k"
  shows "fork_keeps db (Suc k)"
  unfolding fork_keeps_def
proof (intro allI impI)
  fix iter :: FlowState and cfg vis and br :: FlowBranch and idx nd n i result and m :: mem
  assume nd: "getObject db (the (id_f iter)) = Some nd" and v: "variables iter < fresh m"
  let ?call = "collectBranches k db iter cfg vis (Some \<lparr>index = idx, path = path br\<rparr>)
                 idx i (Some nd) m"
  show "keeps m iter (forkLoop (Suc k) db iter cfg vis br idx nd n i result m)"
  proof (cases "i < n")
    case False
    then show ?thesis using v by (simp add: keeps_Some frame_refl)
  next
    case True
    have k1: "keeps m iter ?call"
      using c nd v by (simp add: collect_keeps_def)
    show ?thesis
    proof (cases ?call)
      case None
      then show ?thesis using True by (simp add: keeps_None)
    next
      case (Some r)
      obtain bs it m1 where r: "r = ((bs, it), m1)" by (cases r) auto
      from k1 Some r have a: "frame m m1" "variables it < fresh m1" "id_f it = id_f iter"
        by (simp_all add: keeps_Some)
      have "keeps m1 it (forkLoop k db it cfg vis br idx' nd n (i + 1) (result @ bs) m1)" for idx'
        using f a nd by (simp add: fork_keeps_def)
      then have "keeps m iter (forkLoop k db it cfg vis br idx' nd n (i + 1) (result @ bs) m1)" for idx'
        by (rule keeps_weaken [OF _ a(1) a(3)])
      then show ?thesis using True Some r by (simp add: Let_def)
    qed
  qed
qed

lemma collect_keeps_all:
  assumes db: "consistent_db db" "numBranches_reads db" "writes_need_shadow db"
  shows "collect_keeps db k \<and> walk_keeps db k \<and> fork_keeps db k"
proof (induction k)
  case 0
  show ?case by (simp add: collect_keeps_def walk_keeps_def fork_keeps_def keeps_None)
next
  case (Suc k)
  then show ?case
    using collect_keeps_step [OF db(2)] walk_keeps_step [OF db] fork_keeps_step by blast
qed

text \<open>
  Claim C2, as the code has it. Assume that the database resolves the id of every node that
  \<^verbatim>\<open>next\<close> returns to that node, that \<^verbatim>\<open>numBranches\<close> only reads the variables, and that
  \<^verbatim>\<open>next\<close> writes them only for nodes that report \<^verbatim>\<open>needsShadow() = true\<close>.
  Then a \<^verbatim>\<open>refreshBranches\<close> that returns leaves the \<^verbatim>\<open>variables\<close> field of the
  state on the same store, and that store, like every store that existed before the call,
  has the contents it had. The assumption covers \<^verbatim>\<open>numBranches\<close> because
  \<^verbatim>\<open>collectBranches\<close> asks the node it starts at for its branches on the store of the
  caller, before any clone; it covers the database because \<^verbatim>\<open>basicNextFlowState\<close>
  resolves the node again from the id, while the loop asks the node it holds whether it
  needs a shadow.
\<close>

theorem refreshBranches_isolation:
  assumes "consistent_db db" and "numBranches_reads db" and "writes_need_shadow db"
    and "variables state < fresh m"
    and "refreshBranches fuel db state cfg m = Some (state', m')"
  shows "variables state' = variables state \<and>
         stores m' (variables state) = stores m (variables state) \<and>
         (\<forall>r < fresh m. stores m' r = stores m r)"
proof -
  let ?iter = "\<lparr>id_f = id_f state, last_f = last_f state, variables = variables state,
                shadowing = Some True\<rparr>"
  have "collect_keeps db fuel" using collect_keeps_all [OF assms(1-3)] by simp
  then have "keeps m ?iter (collectBranches fuel db ?iter cfg (visits state) None 0 (- 1) None m)"
    using assms(4) by (simp add: collect_keeps_def)
  with assms(4,5) show ?thesis
    by (auto simp: refreshBranches_def Let_def keeps_def frame_def split: option.splits)
qed

text \<open>
  The claim as it is written assumes only that a node that writes the variables reports
  \<^verbatim>\<open>needsShadow\<close>, and that is not enough. In the first flow A reports it and writes
  when it is asked for its branches: the store of the committed state has the variable
  \<open>asked\<close> after the refresh. In the second flow every node of the database keeps to
  the assumption and \<^verbatim>\<open>numBranches\<close> only reads, but the loop asks the node object it
  was handed whether it needs a shadow and \<^verbatim>\<open>basicNextFlowState\<close> steps from the object
  the database resolves: the store of the committed state has the variable \<open>ranQ\<close>.
\<close>

theorem refreshBranches_isolation_counterexample:
  "mutators_report_shadow askWorld \<and> consistent_db askWorld \<and>
   variables exState < fresh exMem \<and>
   stores exMem (variables exState) = [(''score'', VNum 0)] \<and>
   refreshBranches 4 askWorld exState exStops exMem \<noteq> None \<and>
   stores (snd (the (refreshBranches 4 askWorld exState exStops exMem))) (variables exState)
     = [(''asked'', VBool True), (''score'', VNum 0)] \<and>
   mutators_report_shadow staleWorld \<and> numBranches_reads staleWorld \<and>
   variables staleState < fresh exMem \<and>
   stores exMem (variables staleState) = [(''score'', VNum 0)] \<and>
   refreshBranches 4 staleWorld staleState exStops exMem \<noteq> None \<and>
   stores (snd (the (refreshBranches 4 staleWorld staleState exStops exMem))) (variables staleState)
     = [(''ranQ'', VBool True), (''score'', VNum 0)]"
proof -
  have a1: "mutators_report_shadow askWorld"
    by (auto simp: mutators_report_shadow_def askWorld_def exWorld_def exA_def exB_def exC_def
             split: if_splits)
  have a2: "consistent_db askWorld"
    by (auto simp: consistent_db_def askWorld_def exWorld_def exA_def exB_def exC_def
             split: if_splits)
  have a3: "refreshBranches 4 askWorld exState exStops exMem \<noteq> None"
    "stores (snd (the (refreshBranches 4 askWorld exState exStops exMem))) (variables exState)
       = [(''asked'', VBool True), (''score'', VNum 0)]"
    by (simp_all add: refreshBranches_def askWorld_def ex_defs step_defs eval_nat_numeral Let_def)
  have b1: "mutators_report_shadow staleWorld"
    by (auto simp: mutators_report_shadow_def staleWorld_def staleP_def staleQ_def
             split: if_splits)
  have b2: "numBranches_reads staleWorld"
    by (simp add: numBranches_reads_def staleWorld_def)
  have b3: "refreshBranches 4 staleWorld staleState exStops exMem \<noteq> None"
    "stores (snd (the (refreshBranches 4 staleWorld staleState exStops exMem))) (variables staleState)
       = [(''ranQ'', VBool True), (''score'', VNum 0)]"
    by (simp_all add: refreshBranches_def staleWorld_def staleState_def staleP_def staleQ_def
          staleQ_copy_def ex_defs step_defs eval_nat_numeral Let_def)
  have c: "variables exState < fresh exMem" "stores exMem (variables exState) = [(''score'', VNum 0)]"
    "variables staleState < fresh exMem" "stores exMem (variables staleState) = [(''score'', VNum 0)]"
    by (simp_all add: staleState_def exState_def exMem_def)
  from a1 a2 a3 b1 b2 b3 c show ?thesis by simp
qed

theorem refreshBranches_isolation_witness:
  "consistent_db exWorld \<and> numBranches_reads exWorld \<and> writes_need_shadow exWorld \<and>
   variables exState < fresh exMem \<and>
   refreshBranches 4 exWorld exState exStops exMem \<noteq> None \<and>
   variables (fst (the (refreshBranches 4 exWorld exState exStops exMem))) = 1 \<and>
   stores (snd (the (refreshBranches 4 exWorld exState exStops exMem))) 1 = [(''score'', VNum 0)] \<and>
   stores (snd (the (refreshBranches 4 exWorld exState exStops exMem))) 2
     = [(''seenA'', VBool True), (''score'', VNum 0)]"
proof -
  have h1: "consistent_db exWorld"
    by (auto simp: consistent_db_def exWorld_def exA_def exB_def exC_def split: if_splits)
  have h2: "numBranches_reads exWorld"
    by (simp add: numBranches_reads_def exWorld_def)
  have h3: "writes_need_shadow exWorld"
    by (auto simp: writes_need_shadow_def exWorld_def exA_def exB_def exC_def split: if_splits)
  have h4: "variables exState < fresh exMem"
    by (simp add: exState_def exMem_def)
  obtain st' m' where r: "refreshBranches 4 exWorld exState exStops exMem = Some (st', m')"
    and s2: "stores m' 2 = [(''seenA'', VBool True), (''score'', VNum 0)]"
    by (simp add: refreshBranches_def ex_defs step_defs eval_nat_numeral)
  from refreshBranches_isolation [OF h1 h2 h3 h4 r] r s2 h1 h2 h3 h4 show ?thesis
    by (simp add: exState_def exMem_def)
qed

subsection \<open>Visit limitation\<close>

lemma clean_result_Some: "clean_result vis (Some ((bs, it), m)) = clean vis bs"
  by (simp add: clean_result_def)

lemma clean_result_None: "clean_result vis None"
  by (simp add: clean_result_def)

lemma clean_Nil: "clean vis []"
  by (simp add: clean_def)

lemma clean_Cons: "clean vis (b # bs) = (path b \<noteq> [] \<and> unlimited vis (path b) \<and> clean vis bs)"
  by (auto simp: clean_def unlimited_def)

lemma clean_append: "clean vis (xs @ ys) = (clean vis xs \<and> clean vis ys)"
  by (auto simp: clean_def)

lemma unlimited_snoc: "unlimited vis (p @ [nd]) = (unlimited vis p \<and> \<not> visitLimited nd vis)"
  by (auto simp: unlimited_def)

lemma clean_result_map:
  "clean_result vis res \<Longrightarrow> (\<And>bs. clean vis bs \<Longrightarrow> clean vis (f bs)) \<Longrightarrow>
   clean_result vis (case res of None \<Rightarrow> None | Some ((bs, it), m3) \<Rightarrow> Some ((f bs, g), m3))"
  by (auto simp: clean_result_def split: option.splits)

lemma collect_clean_step:
  assumes w: "walk_clean k"
  shows "collect_clean (Suc k)"
  unfolding collect_clean_def
proof (intro allI impI)
  fix db and iter :: FlowState and cfg vis and branch :: "FlowBranch option"
    and idx dir ndo and m :: mem
  assume b: "\<forall>b. branch = Some b \<longrightarrow> unlimited vis (path b)"
  have "unlimited vis (path (case branch of Some b \<Rightarrow> b | None \<Rightarrow> \<lparr>index = idx, path = []\<rparr>))"
    using b by (cases branch) (simp_all add: unlimited_def)
  then show "clean_result vis (collectBranches (Suc k) db iter cfg vis branch idx dir ndo m)"
    using w
    by (auto simp: walk_clean_def clean_result_Some clean_Nil Let_def
             split: option.splits prod.splits)
qed

lemma walk_clean_step:
  assumes c: "collect_clean k" and w: "walk_clean k" and f: "fork_clean k"
  shows "walk_clean (Suc k)"
  unfolding walk_clean_def
proof (intro allI impI)
  fix db and iter :: FlowState and cfg vis and br :: FlowBranch and idx dir nd n and m :: mem
  assume u: "unlimited vis (path br)"
  show "clean_result vis (walk (Suc k) db iter cfg vis br idx dir nd n m)"
  proof (cases "n = 1 \<or> dir \<ge> 0")
    case False
    then show ?thesis using f u by (simp add: fork_clean_def clean_Nil)
  next
    case True
    obtain iter1 m1 where sh: "shadowStep nd iter m = (iter1, m1)"
      by (cases "shadowStep nd iter m")
    obtain iter2 nxt m2 where nx: "basicNextFlowState db iter1 dir m1 = ((iter2, nxt), m2)"
      by (cases "basicNextFlowState db iter1 dir m1") auto
    show ?thesis
    proof (cases nxt)
      case None
      then show ?thesis using True sh nx by (simp add: clean_result_Some clean_Nil)
    next
      case (Some nd2)
      show ?thesis
      proof (cases "visitLimited nd2 vis")
        case True
        then show ?thesis using \<open>n = 1 \<or> dir \<ge> 0\<close> sh nx Some
          by (simp add: clean_result_Some clean_Nil)
      next
        case lim: False
        let ?br2 = "br\<lparr>path := path br @ [nd2]\<rparr>"
        have u2: "unlimited vis (path ?br2)" "path ?br2 \<noteq> []"
          using u lim by (simp_all add: unlimited_snoc)
        then have one: "clean vis [?br2]" by (simp add: clean_Cons clean_Nil)
        show ?thesis
        proof (cases "stopCheck cfg nd2 vis")
          case ReturnBranch
          then show ?thesis using True sh nx Some lim one by (simp add: clean_result_Some)
        next
          case (ReturnLogged s)
          then show ?thesis using True sh nx Some lim one by (simp add: clean_result_Some)
        next
          case ForkPast
          have "clean_result vis (collectBranches k db iter2 cfg vis
                  (Some \<lparr>index = idx + 1, path = path ?br2\<rparr>) (idx + 1) 0 (Some nd2) m2)"
            using c u2 by (simp add: collect_clean_def)
          from clean_result_map [OF this, of "\<lambda>bs. ?br2 # bs" iter1] u2
          show ?thesis using True sh nx Some lim ForkPast
            by (simp add: clean_Cons)
        next
          case KeepWalking
          obtain n2 m3 where cn: "callNumBranches db nd2 iter2 m2 = (n2, m3)"
            by (cases "callNumBranches db nd2 iter2 m2")
          have "clean_result vis (walk k db iter2 cfg vis ?br2 idx (- 1) nd2 n2 m3)"
            using w u2 by (simp add: walk_clean_def)
          from clean_result_map [OF this, of "\<lambda>bs. bs" iter1]
          show ?thesis using True sh nx Some lim KeepWalking cn
            by simp
        qed
      qed
    qed
  qed
qed

lemma fork_clean_step:
  assumes c: "collect_clean k" and f: "fork_clean k"
  shows "fork_clean (Suc k)"
  unfolding fork_clean_def
proof (intro allI impI)
  fix db and iter :: FlowState and cfg vis and br :: FlowBranch
    and idx nd n i and result :: "FlowBranch list" and m :: mem
  assume u: "unlimited vis (path br)" and r: "clean vis result"
  let ?call = "collectBranches k db iter cfg vis (Some \<lparr>index = idx, path = path br\<rparr>)
                 idx i (Some nd) m"
  show "clean_result vis (forkLoop (Suc k) db iter cfg vis br idx nd n i result m)"
  proof (cases "i < n")
    case False
    then show ?thesis using r by (simp add: clean_result_Some)
  next
    case True
    have k1: "clean_result vis ?call"
      using c u by (simp add: collect_clean_def)
    show ?thesis
    proof (cases ?call)
      case None
      then show ?thesis using True by (simp add: clean_result_None)
    next
      case (Some x)
      obtain bs it m1 where x: "x = ((bs, it), m1)" by (cases x) auto
      from k1 Some x r have "clean vis (result @ bs)"
        by (simp add: clean_result_Some clean_append)
      then have "clean_result vis (forkLoop k db it cfg vis br idx' nd n (i + 1) (result @ bs) m1)"
        for idx'
        using f u by (simp add: fork_clean_def)
      then show ?thesis using True Some x by (simp add: Let_def)
    qed
  qed
qed

lemma collect_clean_all: "collect_clean k \<and> walk_clean k \<and> fork_clean k"
proof (induction k)
  case 0
  show ?case by (simp add: collect_clean_def walk_clean_def fork_clean_def clean_result_None)
next
  case (Suc k)
  then show ?case
    using collect_clean_step walk_clean_step fork_clean_step by blast
qed

text \<open>
  Claim C5. When \<^verbatim>\<open>collectBranches\<close> returns (called without an in-progress branch,
  or with one whose path has no visit-limited node), every branch it returns has a
  non-empty path, its destination is not visit-limited, and no node of the path has a
  \<^verbatim>\<open>Visit_Limitation\<close> feature with \<^verbatim>\<open>Only_Once\<close> set and a count of one or more
  in the visit set of the call. And the loop, when the node it reaches is visit-limited,
  returns no branch.
\<close>

theorem only_once_nodes_never_collected:
  "(collectBranches fuel db iter cfg vis branch idx dir ndo m = Some ((bs, it), m') \<and>
    (\<forall>b0. branch = Some b0 \<longrightarrow> (\<forall>nd \<in> set (path b0). \<not> visitLimited nd vis)) \<and>
    b \<in> set bs \<longrightarrow>
      path b \<noteq> [] \<and> \<not> visitLimited (last (path b)) vis \<and>
      (\<forall>nd \<in> set (path b). \<forall>f. limit_feature nd = Some f \<longrightarrow>
         truthy (map_of f ''Only_Once'') \<longrightarrow> visitCount vis nd < 1)) \<and>
   ((n = 1 \<or> 0 \<le> dir1) \<and> shadowStep nd1 iter0 m0 = (iter1, m1) \<and>
    basicNextFlowState db iter1 dir1 m1 = ((iter2, Some nd2), m2) \<and> visitLimited nd2 vis \<longrightarrow>
      walk (Suc k) db iter0 cfg vis br idx dir1 nd1 n m0 = Some (([], iter1), m2))"
proof (intro conjI impI)
  assume a: "collectBranches fuel db iter cfg vis branch idx dir ndo m = Some ((bs, it), m') \<and>
    (\<forall>b0. branch = Some b0 \<longrightarrow> (\<forall>nd \<in> set (path b0). \<not> visitLimited nd vis)) \<and> b \<in> set bs"
  from a have a1: "collectBranches fuel db iter cfg vis branch idx dir ndo m = Some ((bs, it), m')"
    and a2: "\<forall>b0. branch = Some b0 \<longrightarrow> unlimited vis (path b0)"
    and a3: "b \<in> set bs"
    by (simp_all add: unlimited_def)
  have "collect_clean fuel" using collect_clean_all by simp
  with a2 have "clean_result vis (collectBranches fuel db iter cfg vis branch idx dir ndo m)"
    unfolding collect_clean_def by blast
  with a1 a3 have p: "path b \<noteq> []" "\<forall>nd \<in> set (path b). \<not> visitLimited nd vis"
    by (auto simp: clean_result_def clean_def)
  from p show "path b \<noteq> []" by simp
  from p show "\<not> visitLimited (last (path b)) vis" by simp
  from p(2) show "\<forall>nd \<in> set (path b). \<forall>f. limit_feature nd = Some f \<longrightarrow>
         truthy (map_of f ''Only_Once'') \<longrightarrow> visitCount vis nd < 1"
    by (auto simp: visitLimited_def split: option.splits)
next
  assume "(n = 1 \<or> 0 \<le> dir1) \<and> shadowStep nd1 iter0 m0 = (iter1, m1) \<and>
    basicNextFlowState db iter1 dir1 m1 = ((iter2, Some nd2), m2) \<and> visitLimited nd2 vis"
  then show "walk (Suc k) db iter0 cfg vis br idx dir1 nd1 n m0 = Some (([], iter1), m2)"
    by simp
qed

theorem only_once_nodes_never_collected_witness:
  "limit_feature exC = Some [(''Only_Once'', VBool True)] \<and> visitCount visitedC exC = 1 \<and>
   visitLimited exC visitedC \<and>
   map_option (\<lambda>r. fst (fst r))
     (collectBranches 4 exWorld exIter exStops visitedC None 0 (- 1) None exMem)
     = Some [\<lparr>index = 0, path = [exB]\<rparr>] \<and>
   \<not> visitLimited exB visitedC \<and>
   map_option (\<lambda>r. fst (fst r))
     (walk (Suc 0) exWorld (exIter\<lparr>id_f := Some ''B''\<rparr>) exStops visitedC
        \<lparr>index = 1, path = [exB]\<rparr> 1 0 exB 1 exMem) = Some []"
proof -
  obtain it m' where r: "collectBranches 4 exWorld exIter exStops visitedC None 0 (- 1) None exMem
                           = Some (([\<lparr>index = 0, path = [exB]\<rparr>], it), m')"
    by (simp add: ex_defs ex2_defs visitedC_def step_defs eval_nat_numeral Let_def)
  have l: "limit_feature exC = Some [(''Only_Once'', VBool True)]" "visitCount visitedC exC = 1"
    "visitLimited exC visitedC"
    by (simp_all add: ex_defs ex2_defs visitedC_def step_defs)
  obtain iter1 m1 where s: "shadowStep exB (exIter\<lparr>id_f := Some ''B''\<rparr>) exMem = (iter1, m1)"
    by (cases "shadowStep exB (exIter\<lparr>id_f := Some ''B''\<rparr>) exMem")
  obtain iter2 m2 where x: "basicNextFlowState exWorld iter1 0 m1 = ((iter2, Some exC), m2)"
    using s by (auto simp: ex_defs ex2_defs visitedC_def step_defs)
  note t = only_once_nodes_never_collected [where vis = visitedC and db = exWorld and cfg = exStops]
  from t [THEN conjunct1, THEN mp, of 4 exIter None 0 "- 1" None exMem _ it m'
      "\<lparr>index = 0, path = [exB]\<rparr>"] r
  have 1: "\<not> visitLimited exB visitedC" by simp
  from t [THEN conjunct2, THEN mp, of 1 0 exB "exIter\<lparr>id_f := Some ''B''\<rparr>" exMem iter1 m1 iter2 exC m2
      0 "\<lparr>index = 1, path = [exB]\<rparr>" 1] s x l
  have 2: "walk (Suc 0) exWorld (exIter\<lparr>id_f := Some ''B''\<rparr>) exStops visitedC
        \<lparr>index = 1, path = [exB]\<rparr> 1 0 exB 1 exMem = Some (([], iter1), m2)" by simp
  from 1 2 r l show ?thesis by simp
qed

section \<open>Advanced iteration\<close>

text \<open>
  Claim C7. A branch index that is negative, or not below the number of cached branches, or
  that no cached branch carries, makes \<^verbatim>\<open>advancedNextFlowState\<close> return the state it
  was given, no destination node, and memory and script state untouched, on any fuel; it
  is a normal return, not an exception.
\<close>

theorem advancedNextFlowState_bad_index:
  assumes "branchIndex < 0 \<or> branchIndex \<ge> int (length (branches state))
           \<or> (\<forall>b \<in> set (branches state). index b \<noteq> branchIndex)"
  shows "advancedNextFlowState fuel db state cfg branchIndex m s = Some (Inr ((state, None), m, s))"
proof -
  have "find (\<lambda>x. index x = branchIndex) (branches state) = None"
    if "\<forall>b \<in> set (branches state). index b \<noteq> branchIndex"
    using that by (simp add: find_None_iff)
  then show ?thesis using assms by (auto simp: advancedNextFlowState_def)
qed

theorem advancedNextFlowState_bad_index_witness:
  "advancedNextFlowState 0 exWorld exReady exStops (- 1) exMem exScript
     = Some (Inr ((exReady, None), exMem, exScript)) \<and>
   advancedNextFlowState 0 exWorld exReady exStops 2 exMem exScript
     = Some (Inr ((exReady, None), exMem, exScript)) \<and>
   advancedNextFlowState 0 exWorld (exReady\<lparr>branches := [\<lparr>index = 0, path = [exB]\<rparr>, \<lparr>index = 5, path = [exC]\<rparr>]\<rparr>)
       exStops 1 exMem exScript
     = Some (Inr ((exReady\<lparr>branches := [\<lparr>index = 0, path = [exB]\<rparr>, \<lparr>index = 5, path = [exC]\<rparr>]\<rparr>, None),
                  exMem, exScript))"
  using advancedNextFlowState_bad_index [of "- 1" exReady 0 exWorld exStops exMem exScript]
    advancedNextFlowState_bad_index [of 2 exReady 0 exWorld exStops exMem exScript]
    advancedNextFlowState_bad_index [of 1 "exReady\<lparr>branches := [\<lparr>index = 0, path = [exB]\<rparr>, \<lparr>index = 5, path = [exC]\<rparr>]\<rparr>"
      0 exWorld exStops exMem exScript]
  by (simp add: exReady_def)

subsection \<open>Turn accounting\<close>











end
